theory Spec2Isabelle
  imports Main "HOL-Library.Word"
begin

section \<open>The unified-diff parser of internal/git\<close>

text \<open>
  A shallow embedding of \<^verbatim>\<open>internal/git/parser.go\<close> (the \<^verbatim>\<open>diffParser\<close> with its
  methods \<^verbatim>\<open>parse\<close>, \<^verbatim>\<open>parseFile\<close>, \<^verbatim>\<open>parseHunk\<close>) and of
  \<^verbatim>\<open>Service.getUntrackedFileDiff\<close>.

  Go strings are byte sequences and are modelled as \<^typ>\<open>string\<close> (lists of 8-bit
  characters). Go's \<^verbatim>\<open>int\<close> is taken at its 64-bit width (amd64, arm64) and modelled as
  \<^typ>\<open>64 word\<close>, read as two's complement by \<^const>\<open>sint\<close>; \<^verbatim>\<open>++\<close> wraps around as
  Go specifies. The cursor \<^verbatim>\<open>p.current\<close> only ever holds values between 0 and
  \<^verbatim>\<open>len(p.lines)\<close> and is a \<^typ>\<open>nat\<close>; the slice \<^verbatim>\<open>p.lines\<close> is written once by
  \<^verbatim>\<open>newDiffParser\<close> and is passed along unchanged.
\<close>

subsection \<open>Library functions of Go used by the parser\<close>

type_synonym go_int = "64 word"

definition HasPrefix :: "string \<Rightarrow> string \<Rightarrow> bool" where
  \<comment> \<open>\<^verbatim>\<open>strings.HasPrefix(s, prefix)\<close>\<close>
  "HasPrefix s pre = (length pre \<le> length s \<and> take (length pre) s = pre)"

definition TrimPrefix :: "string \<Rightarrow> string \<Rightarrow> string" where
  \<comment> \<open>\<^verbatim>\<open>strings.TrimPrefix(s, prefix)\<close>: \<^verbatim>\<open>s\<close> itself when it does not start with the prefix\<close>
  "TrimPrefix s pre = (if HasPrefix s pre then drop (length pre) s else s)"

fun Split :: "string \<Rightarrow> string list" where
  \<comment> \<open>\<^verbatim>\<open>strings.Split(s, "\n")\<close>: one more segment than there are newline bytes\<close>
  "Split [] = [[]]"
| "Split (c # cs) =
     (if c = CHR 0x0A then [] # Split cs
      else (case Split cs of [] \<Rightarrow> [[c]] | l # ls \<Rightarrow> (c # l) # ls))"

definition is_digit :: "char \<Rightarrow> bool" where
  \<comment> \<open>the class \<^verbatim>\<open>\d\<close> of Go's regexp syntax: the ASCII digits\<close>
  "is_digit c = (c \<in> set ''0123456789'')"

definition is_lower :: "char \<Rightarrow> bool" where
  \<comment> \<open>the class \<^verbatim>\<open>[a-z]\<close>\<close>
  "is_lower c = (c \<in> set ''abcdefghijklmnopqrstuvwxyz'')"

definition digit_val :: "char \<Rightarrow> nat" where
  "digit_val c = of_char c - 48"

definition decimal :: "string \<Rightarrow> nat" where
  \<comment> \<open>the number a string of digits denotes\<close>
  "decimal ds = foldl (\<lambda>n c. 10 * n + digit_val c) 0 ds"

definition MaxInt :: nat where
  "MaxInt = 2 ^ 63 - 1"

definition Atoi :: "string \<Rightarrow> go_int" where
  \<comment> \<open>\<^verbatim>\<open>strconv.Atoi\<close> on a non-empty string of digits, its error dropped as the parser
      does (\<^verbatim>\<open>n, _ = strconv.Atoi(s)\<close>): the number denoted, and on a range error the
      largest \<^verbatim>\<open>int\<close>, which is the value \<^verbatim>\<open>strconv.ParseInt\<close> returns with \<^verbatim>\<open>ErrRange\<close>\<close>
  "Atoi ds = word_of_nat (min (decimal ds) MaxInt)"

function Itoa :: "nat \<Rightarrow> string" where
  \<comment> \<open>\<^verbatim>\<open>fmt.Sprintf("%d", n)\<close> for \<^verbatim>\<open>n \<ge> 0\<close>\<close>
  "Itoa n =
     (if n < 10 then [''0123456789'' ! n] else Itoa (n div 10) @ [''0123456789'' ! (n mod 10)])"
  by pat_completeness auto
termination
  by (relation "measure id") auto

declare Itoa.simps [simp del]

fun strip_literal :: "string \<Rightarrow> string \<Rightarrow> string option" where
  \<comment> \<open>match a literal piece of a pattern at the start of the text; the rest of the text\<close>
  "strip_literal [] s = Some s"
| "strip_literal (p # ps) [] = None"
| "strip_literal (p # ps) (c # cs) = (if p = c then strip_literal ps cs else None)"

subsection \<open>The two regular expressions\<close>

text \<open>
  \<^verbatim>\<open>regexp.FindStringSubmatch\<close> returns the leftmost match, and among the matches at
  that position the one a backtracking matcher finds first (greedy operators take
  as much as they can). Lines hold no newline, so \<^verbatim>\<open>.\<close> matches every byte of a line;
  all delimiters of both patterns are ASCII, so matching bytes and matching runes
  capture the same substrings. A match is \<^verbatim>\<open>Some\<close> of the capture groups (an optional
  group that took no part is the empty string, as in Go); no match (\<^verbatim>\<open>nil\<close>) is
  \<^verbatim>\<open>None\<close>.
\<close>

fun split_last_sep :: "string \<Rightarrow> (string \<times> string) option" where
  \<comment> \<open>\<^verbatim>\<open>(.+) [a-z]/(.+)\<close> against a whole text: the first group is greedy, so the
      separator chosen is the last one that leaves both groups non-empty\<close>
  "split_last_sep [] = None"
| "split_last_sep (x # xs) =
     (case split_last_sep xs of
        Some (a, b) \<Rightarrow> Some (x # a, b)
      | None \<Rightarrow>
         (case xs of
            s # c # sl # y # ys \<Rightarrow>
              if s = CHR '' '' \<and> is_lower c \<and> sl = CHR ''/'' then Some ([x], y # ys) else None
          | _ \<Rightarrow> None))"

definition match_paths_at :: "string \<Rightarrow> (string \<times> string) option" where
  \<comment> \<open>\<^verbatim>\<open>diff --git [a-z]/(.+) [a-z]/(.+)\<close> matched at the start of the text\<close>
  "match_paths_at s =
     (case strip_literal ''diff --git '' s of
        None \<Rightarrow> None
      | Some r \<Rightarrow>
         (case r of
            c # sl # rest \<Rightarrow>
              if is_lower c \<and> sl = CHR ''/'' then split_last_sep rest else None
          | _ \<Rightarrow> None))"

fun match_paths :: "string \<Rightarrow> (string \<times> string) option" where
  \<comment> \<open>the leftmost match of the path pattern in the line\<close>
  "match_paths [] = match_paths_at []"
| "match_paths (c # cs) =
     (case match_paths_at (c # cs) of Some r \<Rightarrow> Some r | None \<Rightarrow> match_paths cs)"

definition opt_count :: "string \<Rightarrow> string \<times> string" where
  \<comment> \<open>the optional group \<^verbatim>\<open>(?:,(\d+))?\<close>: the digits captured (empty when the group is
      skipped) and the rest of the text\<close>
  "opt_count s =
     (case s of
        c # r \<Rightarrow>
          if c = CHR '','' \<and> takeWhile is_digit r \<noteq> []
          then (takeWhile is_digit r, dropWhile is_digit r) else ([], s)
      | [] \<Rightarrow> ([], s))"

definition match_hunk_at :: "string \<Rightarrow> (string \<times> string \<times> string \<times> string \<times> string) option" where
  \<comment> \<open>\<^verbatim>\<open>@@ -(\d+)(?:,(\d+))? \+(\d+)(?:,(\d+))? @@(.*)\<close> matched at the start of the text.
      Every \<^verbatim>\<open>\d+\<close> is followed in the pattern by a byte that is no digit, so it takes
      the whole run of digits.\<close>
  "match_hunk_at s =
     (case strip_literal ''@@ -'' s of
        None \<Rightarrow> None
      | Some r1 \<Rightarrow>
          if takeWhile is_digit r1 = [] then None
          else
            (case opt_count (dropWhile is_digit r1) of
               (m2, r3) \<Rightarrow>
                 (case strip_literal '' +'' r3 of
                    None \<Rightarrow> None
                  | Some r4 \<Rightarrow>
                      if takeWhile is_digit r4 = [] then None
                      else
                        (case opt_count (dropWhile is_digit r4) of
                           (m4, r6) \<Rightarrow>
                             (case strip_literal '' @@'' r6 of
                                None \<Rightarrow> None
                              | Some m5 \<Rightarrow>
                                  Some (takeWhile is_digit r1, m2, takeWhile is_digit r4, m4, m5))))))"

fun match_hunk :: "string \<Rightarrow> (string \<times> string \<times> string \<times> string \<times> string) option" where
  \<comment> \<open>the leftmost match of the hunk-header pattern in the line\<close>
  "match_hunk [] = match_hunk_at []"
| "match_hunk (c # cs) =
     (case match_hunk_at (c # cs) of Some r \<Rightarrow> Some r | None \<Rightarrow> match_hunk cs)"

subsection \<open>The data model\<close>

text \<open>
  Modelled from the spec: the types \<^verbatim>\<open>FileDiff\<close>, \<^verbatim>\<open>Hunk\<close> and \<^verbatim>\<open>Line\<close> and the constants
  of \<^verbatim>\<open>LineType\<close>, which are declared in a file of the package that is not among the
  sources. The fields are those of the spec's data model, under the names and with
  the types the parser assigns them with: counts and line numbers are \<^verbatim>\<open>int\<close>, the two
  line numbers of a line are \<^verbatim>\<open>*int\<close>, with \<^verbatim>\<open>nil\<close> (here \<open>None\<close>) for a number the line
  does not carry.
\<close>

datatype LineType = LineTypeContext | LineTypeAdded | LineTypeDeleted

text \<open>
  Modelled from the spec: the constants of \<^verbatim>\<open>FileStatus\<close>, declared in the same missing
  file. The spec names four statuses; \<open>FileStatusUnset\<close> is the zero value \<^verbatim>\<open>""\<close> of the
  string type, which \<^verbatim>\<open>parseFile\<close> tests for, taken to differ from all four.
\<close>

datatype FileStatus =
  FileStatusUnset | FileStatusAdded | FileStatusDeleted | FileStatusModified | FileStatusRenamed

record Line =
  Type :: LineType
  OldNumber :: "go_int option"
  NewNumber :: "go_int option"
  Content :: string

record Hunk =
  OldStart :: go_int
  OldLines :: go_int
  NewStart :: go_int
  NewLines :: go_int
  Header :: string
  Lines :: "Line list"

record FileDiff =
  Path :: string
  OldPath :: string
  Status :: FileStatus
  Additions :: go_int
  Deletions :: go_int
  IsBinary :: bool
  Hunks :: "Hunk list"

subsection \<open>parseHunk\<close>

text \<open>
  The scan of a hunk body (the \<^verbatim>\<open>for\<close> loop of \<^verbatim>\<open>parseHunk\<close>), from the cursor \<open>cur\<close>
  with the hunk built so far and the two running counters. It returns the hunk and
  the cursor where it stopped.
\<close>

function hunk_body :: "string list \<Rightarrow> nat \<Rightarrow> Hunk \<Rightarrow> go_int \<Rightarrow> go_int \<Rightarrow> Hunk \<times> nat" where
  "hunk_body ls cur hunk oldLine newLine =
     (if cur < length ls then
        if length ls \<le> cur \<or> HasPrefix (ls ! cur) ''@@'' \<or> HasPrefix (ls ! cur) ''diff --git''
        then (hunk, cur)
        else
          let line = ls ! cur in
          if length line = 0 then hunk_body ls (cur + 1) hunk oldLine newLine
          else if line ! 0 = CHR ''+'' then
            hunk_body ls (cur + 1)
              (hunk\<lparr>Lines := Lines hunk @
                 [\<lparr>Type = LineTypeAdded, OldNumber = None, NewNumber = Some newLine,
                   Content = drop 1 line\<rparr>]\<rparr>)
              oldLine (newLine + 1)
          else if line ! 0 = CHR ''-'' then
            hunk_body ls (cur + 1)
              (hunk\<lparr>Lines := Lines hunk @
                 [\<lparr>Type = LineTypeDeleted, OldNumber = Some oldLine, NewNumber = None,
                   Content = drop 1 line\<rparr>]\<rparr>)
              (oldLine + 1) newLine
          else if line ! 0 = CHR '' '' then
            hunk_body ls (cur + 1)
              (hunk\<lparr>Lines := Lines hunk @
                 [\<lparr>Type = LineTypeContext, OldNumber = Some oldLine, NewNumber = Some newLine,
                   Content = drop 1 line\<rparr>]\<rparr>)
              (oldLine + 1) (newLine + 1)
          else if line ! 0 = CHR 0x5C then hunk_body ls (cur + 1) hunk oldLine newLine
          else hunk_body ls (cur + 1) hunk oldLine newLine
      else (hunk, cur))"
  by pat_completeness auto
termination
  by (relation "measure (\<lambda>(ls, cur, hunk, oldLine, newLine). length ls - cur)") auto

declare hunk_body.simps [simp del]

definition new_hunk :: "string \<Rightarrow> string \<times> string \<times> string \<times> string \<times> string \<Rightarrow> Hunk" where
  \<comment> \<open>the hunk \<^verbatim>\<open>parseHunk\<close> builds from a header and the groups of its match, before
      it scans the body\<close>
  "new_hunk header matches =
     (case matches of
        (m1, m2, m3, m4, m5) \<Rightarrow>
          \<lparr>OldStart = Atoi m1,
           OldLines = (if m2 \<noteq> [] then Atoi m2 else 1),
           NewStart = Atoi m3,
           NewLines = (if m4 \<noteq> [] then Atoi m4 else 1),
           Header = header,
           Lines = []\<rparr>)"

definition parseHunk :: "string list \<Rightarrow> nat \<Rightarrow> Hunk option \<times> nat" where
  \<comment> \<open>\<^verbatim>\<open>parseHunk\<close> with the cursor at a line of the input (its caller has tested
      \<^verbatim>\<open>p.current < len(p.lines)\<close>). \<^verbatim>\<open>None\<close> is the \<^verbatim>\<open>nil\<close> returned for a header that
      does not match; the cursor is then where it was.\<close>
  "parseHunk ls cur =
     (let header = ls ! cur in
      case match_hunk header of
        None \<Rightarrow> (None, cur)
      | Some matches \<Rightarrow>
          let hunk = new_hunk header matches;
              (hunk, cur') = hunk_body ls (cur + 1) hunk (OldStart hunk) (NewStart hunk)
          in (Some hunk, cur'))"

text \<open>
  The loop as a function of the lines it reads: \<open>body_of\<close> is the run of lines from the
  cursor up to the first one that stops the scan (a hunk header, a file-section
  marker, or the end of the input), \<open>scan_lines\<close> the records the loop appends for them.
\<close>

definition stops :: "string \<Rightarrow> bool" where
  "stops l = (HasPrefix l ''@@'' \<or> HasPrefix l ''diff --git'')"

fun scan_lines :: "go_int \<Rightarrow> go_int \<Rightarrow> string list \<Rightarrow> Line list" where
  "scan_lines ol nl [] = []"
| "scan_lines ol nl (l # ls) =
     (if l = [] then scan_lines ol nl ls
      else if hd l = CHR ''+'' then
        \<lparr>Type = LineTypeAdded, OldNumber = None, NewNumber = Some nl, Content = tl l\<rparr>
          # scan_lines ol (nl + 1) ls
      else if hd l = CHR ''-'' then
        \<lparr>Type = LineTypeDeleted, OldNumber = Some ol, NewNumber = None, Content = tl l\<rparr>
          # scan_lines (ol + 1) nl ls
      else if hd l = CHR '' '' then
        \<lparr>Type = LineTypeContext, OldNumber = Some ol, NewNumber = Some nl, Content = tl l\<rparr>
          # scan_lines (ol + 1) (nl + 1) ls
      else scan_lines ol nl ls)"

definition body_of :: "string list \<Rightarrow> nat \<Rightarrow> string list" where
  "body_of ls cur = takeWhile (\<lambda>l. \<not> stops l) (drop cur ls)"

lemma body_of_end: "length ls \<le> cur \<Longrightarrow> body_of ls cur = []"
  by (simp add: body_of_def)

lemma body_of_stop: "cur < length ls \<Longrightarrow> stops (ls ! cur) \<Longrightarrow> body_of ls cur = []"
  by (simp add: body_of_def Cons_nth_drop_Suc [symmetric])

lemma body_of_step:
  "cur < length ls \<Longrightarrow> \<not> stops (ls ! cur) \<Longrightarrow> body_of ls cur = ls ! cur # body_of ls (Suc cur)"
  by (simp add: body_of_def Cons_nth_drop_Suc [symmetric])

lemma hunk_body_eq:
  "hunk_body ls cur hunk ol nl =
     (hunk\<lparr>Lines := Lines hunk @ scan_lines ol nl (body_of ls cur)\<rparr>,
      cur + length (body_of ls cur))"
proof (induction ls cur hunk ol nl rule: hunk_body.induct)
  case (1 ls cur hunk ol nl)
  show ?case
  proof (cases "cur < length ls \<and> \<not> stops (ls ! cur)")
    case False
    then have "body_of ls cur = []"
      using body_of_end [of ls cur] body_of_stop [of cur ls] by (cases "cur < length ls") auto
    with False show ?thesis
      by (subst hunk_body.simps) (auto simp: stops_def)
  next
    case True
    then have b: "body_of ls cur = ls ! cur # body_of ls (Suc cur)"
      by (simp add: body_of_step)
    from True have c: "cur < length ls" "\<not> (length ls \<le> cur \<or> HasPrefix (ls ! cur) ''@@'' \<or> HasPrefix (ls ! cur) ''diff --git'')"
      by (auto simp: stops_def)
    note ih = "1.IH" [OF c refl]
    show ?thesis
    proof (cases "ls ! cur = []")
      case True
      with ih(1) c b show ?thesis
        by (subst hunk_body.simps) simp
    next
      case ne: False
      then have h: "ls ! cur ! 0 = hd (ls ! cur)" "drop 1 (ls ! cur) = tl (ls ! cur)"
        by (simp_all add: hd_conv_nth drop_Suc)
      from ne have n0: "length (ls ! cur) \<noteq> 0" by simp
      show ?thesis
      proof (cases "hd (ls ! cur) = CHR ''+''")
        case True
        with ih(2) [OF n0] c b ne h show ?thesis
          by (subst hunk_body.simps) simp
      next
        case np: False
        show ?thesis
        proof (cases "hd (ls ! cur) = CHR ''-''")
          case True
          with np ih(3) [OF n0] c b ne h show ?thesis
            by (subst hunk_body.simps) simp
        next
          case nm: False
          show ?thesis
          proof (cases "hd (ls ! cur) = CHR '' ''")
            case True
            with np nm ih(4) [OF n0] c b ne h show ?thesis
              by (subst hunk_body.simps) simp
          next
            case ns: False
            show ?thesis
            proof (cases "hd (ls ! cur) = CHR 0x5C")
              case True
              with np nm ns ih(5) [OF n0] c b ne h show ?thesis
                by (subst hunk_body.simps) simp
            next
              case False
              with np nm ns ih(6) [OF n0] c b ne h show ?thesis
                by (subst hunk_body.simps) simp
            qed
          qed
        qed
      qed
    qed
  qed
qed


definition hunk_end :: "string list \<Rightarrow> nat \<Rightarrow> nat" where
  \<comment> \<open>where the cursor stands after the hunk whose header is line \<open>cur\<close>\<close>
  "hunk_end ls cur = Suc cur + length (body_of ls (Suc cur))"

definition hunk_of :: "string list \<Rightarrow> nat \<Rightarrow> Hunk" where
  \<comment> \<open>the hunk whose header is line \<open>cur\<close>, when that line matches the header pattern\<close>
  "hunk_of ls cur =
     (let h = new_hunk (ls ! cur) (the (match_hunk (ls ! cur)))
      in h\<lparr>Lines := scan_lines (OldStart h) (NewStart h) (body_of ls (Suc cur))\<rparr>)"

lemma Lines_new_hunk: "Lines (new_hunk header ms) = []"
  by (cases ms) (simp add: new_hunk_def)

lemma parseHunk_None: "match_hunk (ls ! cur) = None \<Longrightarrow> parseHunk ls cur = (None, cur)"
  by (simp add: parseHunk_def)

lemma parseHunk_Some:
  "match_hunk (ls ! cur) \<noteq> None \<Longrightarrow> parseHunk ls cur = (Some (hunk_of ls cur), hunk_end ls cur)"
  by (auto simp: parseHunk_def hunk_body_eq hunk_of_def hunk_end_def Let_def Lines_new_hunk)

lemma hunk_end_gt: "cur < hunk_end ls cur"
  by (simp add: hunk_end_def)



lemma parseHunk_Some_cursor: "parseHunk ls cur = (Some hunk, cur') \<Longrightarrow> cur < cur'"
  by (cases "match_hunk (ls ! cur)") (auto simp: parseHunk_None parseHunk_Some hunk_end_gt)

lemma parseHunk_None_cursor: "parseHunk ls cur = (None, cur') \<Longrightarrow> cur' = cur"
  by (cases "match_hunk (ls ! cur)") (auto simp: parseHunk_None parseHunk_Some)

subsection \<open>parseFile\<close>

text \<open>
  The scan of a file section (the first \<^verbatim>\<open>for\<close> loop of \<^verbatim>\<open>parseFile\<close>). The \<^verbatim>\<open>switch\<close>
  takes the first case whose prefix test holds. After a hunk the loop continues at
  the cursor \<^verbatim>\<open>parseHunk\<close> left; in every other case, also when \<^verbatim>\<open>parseHunk\<close>
  returned \<^verbatim>\<open>nil\<close>, the cursor moves one line on.
\<close>

function file_body :: "string list \<Rightarrow> nat \<Rightarrow> FileDiff \<Rightarrow> FileDiff \<times> nat" where
  "file_body ls cur file =
     (if cur < length ls \<and> \<not> HasPrefix (ls ! cur) ''diff --git'' then
        let line = ls ! cur in
        if HasPrefix line ''new file'' then
          file_body ls (cur + 1) (file\<lparr>Status := FileStatusAdded\<rparr>)
        else if HasPrefix line ''deleted file'' then
          file_body ls (cur + 1) (file\<lparr>Status := FileStatusDeleted\<rparr>)
        else if HasPrefix line ''rename from'' then
          file_body ls (cur + 1)
            (file\<lparr>Status := FileStatusRenamed, OldPath := TrimPrefix line ''rename from ''\<rparr>)
        else if HasPrefix line ''Binary files'' then
          file_body ls (cur + 1) (file\<lparr>IsBinary := True\<rparr>)
        else if HasPrefix line ''@@'' then
          (case parseHunk ls cur of
             (Some hunk, cur') \<Rightarrow> file_body ls cur' (file\<lparr>Hunks := Hunks file @ [hunk]\<rparr>)
           | (None, cur') \<Rightarrow> file_body ls (cur' + 1) file)
        else file_body ls (cur + 1) file
      else (file, cur))"
  by pat_completeness auto
termination
proof (relation "measure (\<lambda>(ls, cur, file). length ls - cur)")
qed (auto dest: parseHunk_Some_cursor [OF sym] parseHunk_None_cursor [OF sym])

declare file_body.simps [simp del]


text \<open>
  The loop one line at a time: \<open>mark\<close> is what the \<^verbatim>\<open>switch\<close> does to the file for a line
  that starts no hunk, \<open>is_header\<close> says that the line starts one.
\<close>

definition is_marker :: "string \<Rightarrow> bool" where
  "is_marker l = HasPrefix l ''diff --git''"

definition mark :: "string \<Rightarrow> FileDiff \<Rightarrow> FileDiff" where
  "mark line file =
     (if HasPrefix line ''new file'' then file\<lparr>Status := FileStatusAdded\<rparr>
      else if HasPrefix line ''deleted file'' then file\<lparr>Status := FileStatusDeleted\<rparr>
      else if HasPrefix line ''rename from'' then
        file\<lparr>Status := FileStatusRenamed, OldPath := TrimPrefix line ''rename from ''\<rparr>
      else if HasPrefix line ''Binary files'' then file\<lparr>IsBinary := True\<rparr>
      else file)"

definition is_header :: "string \<Rightarrow> bool" where
  "is_header l = (HasPrefix l ''@@'' \<and> match_hunk l \<noteq> None)"

lemma HasPrefix_Cons: "HasPrefix l (c # cs) = (l \<noteq> [] \<and> hd l = c \<and> HasPrefix (tl l) cs)"
  by (cases l) (auto simp: HasPrefix_def)

lemma mark_at: "HasPrefix l ''@@'' \<Longrightarrow> mark l f = f"
  by (simp add: mark_def HasPrefix_Cons)

lemma file_body_stop:
  "\<not> (cur < length ls \<and> \<not> is_marker (ls ! cur)) \<Longrightarrow> file_body ls cur f = (f, cur)"
  by (subst file_body.simps) (auto simp: is_marker_def)

lemma file_body_mark:
  assumes "cur < length ls" "\<not> is_marker (ls ! cur)" "\<not> is_header (ls ! cur)"
  shows "file_body ls cur f = file_body ls (Suc cur) (mark (ls ! cur) f)"
proof (cases "HasPrefix (ls ! cur) ''@@''")
  case True
  with assms(3) have "match_hunk (ls ! cur) = None"
    unfolding is_header_def by blast
  then have "parseHunk ls cur = (None, cur)"
    by (rule parseHunk_None)
  moreover from True have "mark (ls ! cur) f = f"
    by (rule mark_at)
  moreover from True have "\<not> HasPrefix (ls ! cur) ''new file''" "\<not> HasPrefix (ls ! cur) ''deleted file''"
    "\<not> HasPrefix (ls ! cur) ''rename from''" "\<not> HasPrefix (ls ! cur) ''Binary files''"
    by (auto simp: HasPrefix_Cons)
  ultimately show ?thesis
    using assms(1,2) True by (subst file_body.simps) (simp add: is_marker_def)
next
  case False
  let ?l = "ls ! cur"
  consider (a) "HasPrefix ?l ''new file''"
    | (b) "\<not> HasPrefix ?l ''new file''" "HasPrefix ?l ''deleted file''"
    | (c) "\<not> HasPrefix ?l ''new file''" "\<not> HasPrefix ?l ''deleted file''"
          "HasPrefix ?l ''rename from''"
    | (d) "\<not> HasPrefix ?l ''new file''" "\<not> HasPrefix ?l ''deleted file''"
          "\<not> HasPrefix ?l ''rename from''" "HasPrefix ?l ''Binary files''"
    | (e) "\<not> HasPrefix ?l ''new file''" "\<not> HasPrefix ?l ''deleted file''"
          "\<not> HasPrefix ?l ''rename from''" "\<not> HasPrefix ?l ''Binary files''"
    by blast
  then show ?thesis
  proof cases
    case a
    with assms(1,2) show ?thesis
      by (subst file_body.simps) (simp add: is_marker_def mark_def)
  next
    case b
    with assms(1,2) show ?thesis
      by (subst file_body.simps) (simp add: is_marker_def mark_def)
  next
    case c
    with assms(1,2) show ?thesis
      by (subst file_body.simps) (simp add: is_marker_def mark_def)
  next
    case d
    with assms(1,2) show ?thesis
      by (subst file_body.simps) (simp add: is_marker_def mark_def)
  next
    case e
    with assms(1,2) False show ?thesis
      by (subst file_body.simps) (simp add: is_marker_def mark_def)
  qed
qed

lemma file_body_hunk:
  assumes "cur < length ls" "\<not> is_marker (ls ! cur)" "is_header (ls ! cur)"
  shows "file_body ls cur f =
         file_body ls (hunk_end ls cur) (f\<lparr>Hunks := Hunks f @ [hunk_of ls cur]\<rparr>)"
proof -
  from assms(3) have at: "HasPrefix (ls ! cur) ''@@''" and "match_hunk (ls ! cur) \<noteq> None"
    by (simp_all add: is_header_def)
  then have "parseHunk ls cur = (Some (hunk_of ls cur), hunk_end ls cur)"
    by (simp add: parseHunk_Some)
  moreover from at have "\<not> HasPrefix (ls ! cur) ''new file''" "\<not> HasPrefix (ls ! cur) ''deleted file''"
    "\<not> HasPrefix (ls ! cur) ''rename from''" "\<not> HasPrefix (ls ! cur) ''Binary files''"
    by (auto simp: HasPrefix_Cons)
  ultimately show ?thesis
    using assms(1,2) at by (subst file_body.simps) (simp add: is_marker_def)
qed

lemma file_body_induct [consumes 0, case_names stop mark hunk]:
  assumes stop: "\<And>cur f. \<not> (cur < length ls \<and> \<not> is_marker (ls ! cur)) \<Longrightarrow> P cur f"
    and mark: "\<And>cur f. cur < length ls \<Longrightarrow> \<not> is_marker (ls ! cur) \<Longrightarrow> \<not> is_header (ls ! cur) \<Longrightarrow>
           P (Suc cur) (mark (ls ! cur) f) \<Longrightarrow> P cur f"
    and hunk: "\<And>cur f. cur < length ls \<Longrightarrow> \<not> is_marker (ls ! cur) \<Longrightarrow> is_header (ls ! cur) \<Longrightarrow>
           P (hunk_end ls cur) (f\<lparr>Hunks := Hunks f @ [hunk_of ls cur]\<rparr>) \<Longrightarrow> P cur f"
  shows "P cur f"
proof (induction "length ls - cur" arbitrary: cur f rule: less_induct)
  case (less cur f)
  show ?case
  proof (cases "cur < length ls \<and> \<not> is_marker (ls ! cur)")
    case False
    then show ?thesis by (rule stop)
  next
    case True
    then have c: "cur < length ls" and m: "\<not> is_marker (ls ! cur)"
      by simp_all
    show ?thesis
    proof (cases "is_header (ls ! cur)")
      case False
      from c have "length ls - Suc cur < length ls - cur"
        by arith
      then have "P (Suc cur) (mark (ls ! cur) f)"
        by (rule less)
      with c m False show ?thesis by (rule mark)
    next
      case h: True
      from c hunk_end_gt [of cur ls] have "length ls - hunk_end ls cur < length ls - cur"
        by arith
      then have "P (hunk_end ls cur) (f\<lparr>Hunks := Hunks f @ [hunk_of ls cur]\<rparr>)"
        by (rule less)
      with c m h show ?thesis by (rule hunk)
    qed
  qed
qed

definition tally :: "FileDiff \<Rightarrow> Line \<Rightarrow> FileDiff" where
  \<comment> \<open>the \<^verbatim>\<open>switch line.Type\<close> of the counting loops\<close>
  "tally file line =
     (case Type line of
        LineTypeAdded \<Rightarrow> file\<lparr>Additions := Additions file + 1\<rparr>
      | LineTypeDeleted \<Rightarrow> file\<lparr>Deletions := Deletions file + 1\<rparr>
      | LineTypeContext \<Rightarrow> file)"

definition tally_hunks :: "FileDiff \<Rightarrow> FileDiff" where
  \<comment> \<open>\<^verbatim>\<open>for _, hunk := range file.Hunks { for _, line := range hunk.Lines { ... } }\<close>\<close>
  "tally_hunks file = foldl (\<lambda>f hunk. foldl tally f (Lines hunk)) file (Hunks file)"

definition new_file :: "string \<Rightarrow> FileDiff" where
  \<comment> \<open>the file \<^verbatim>\<open>parseFile\<close> starts from: empty, with the two paths when the marker
      line matches the path pattern (\<^verbatim>\<open>len(paths) >= 3\<close>)\<close>
  "new_file diffLine =
     (let file = \<lparr>Path = [], OldPath = [], Status = FileStatusUnset, Additions = 0,
                  Deletions = 0, IsBinary = False, Hunks = []\<rparr>
      in case match_paths diffLine of
           Some (m1, m2) \<Rightarrow> file\<lparr>OldPath := m1, Path := m2\<rparr>
         | None \<Rightarrow> file)"

definition default_status :: "FileDiff \<Rightarrow> FileDiff" where
  \<comment> \<open>\<^verbatim>\<open>if file.Status == "" { file.Status = FileStatusModified }\<close>\<close>
  "default_status file =
     (if Status file = FileStatusUnset then file\<lparr>Status := FileStatusModified\<rparr> else file)"

definition parseFile :: "string list \<Rightarrow> nat \<Rightarrow> FileDiff option \<times> nat" where
  \<comment> \<open>\<^verbatim>\<open>parseFile\<close> with the cursor at a line of the input (its caller has tested
      \<^verbatim>\<open>p.current < len(p.lines)\<close>). The pointer returned is never \<^verbatim>\<open>nil\<close>.\<close>
  "parseFile ls cur =
     (let diffLine = ls ! cur;
          file = new_file diffLine;
          (file, cur') = file_body ls (cur + 1) file;
          file = default_status file;
          file = tally_hunks file
      in (Some file, cur'))"

definition section_of :: "string list \<Rightarrow> nat \<Rightarrow> string list" where
  \<comment> \<open>the lines from the cursor up to the next file-section marker or the end of the input\<close>
  "section_of ls cur = takeWhile (\<lambda>l. \<not> is_marker l) (drop cur ls)"

definition section_end :: "string list \<Rightarrow> nat \<Rightarrow> nat" where
  "section_end ls cur = cur + length (section_of ls cur)"

lemma section_end_stop:
  "\<not> (cur < length ls \<and> \<not> is_marker (ls ! cur)) \<Longrightarrow> section_end ls cur = cur"
  by (cases "cur < length ls")
    (simp_all add: section_end_def section_of_def Cons_nth_drop_Suc [symmetric])

lemma section_of_step:
  "cur < length ls \<Longrightarrow> \<not> is_marker (ls ! cur) \<Longrightarrow>
   section_of ls cur = ls ! cur # section_of ls (Suc cur)"
  by (simp add: section_of_def Cons_nth_drop_Suc [symmetric])

lemma section_end_step:
  "cur < length ls \<Longrightarrow> \<not> is_marker (ls ! cur) \<Longrightarrow> section_end ls (Suc cur) = section_end ls cur"
  by (simp add: section_end_def section_of_step)

lemma section_of_body:
  "section_of ls cur = body_of ls cur @ section_of ls (cur + length (body_of ls cur))"
proof -
  let ?b = "body_of ls cur"
  have "take (length ?b) (drop cur ls) = ?b"
    unfolding body_of_def by (rule takeWhile_eq_take [symmetric])
  then have d: "drop cur ls = ?b @ drop (cur + length ?b) ls"
    by (metis append_take_drop_id drop_drop add.commute)
  have "\<And>l. l \<in> set ?b \<Longrightarrow> \<not> is_marker l"
    unfolding body_of_def by (auto dest: set_takeWhileD simp: stops_def is_marker_def)
  then have "takeWhile (\<lambda>l. \<not> is_marker l) (?b @ drop (cur + length ?b) ls)
             = ?b @ takeWhile (\<lambda>l. \<not> is_marker l) (drop (cur + length ?b) ls)"
    by (simp add: takeWhile_append2)
  with d show ?thesis
    by (simp add: section_of_def)
qed

lemma section_end_hunk:
  "cur < length ls \<Longrightarrow> \<not> is_marker (ls ! cur) \<Longrightarrow> section_end ls (hunk_end ls cur) = section_end ls cur"
proof -
  assume c: "cur < length ls" "\<not> is_marker (ls ! cur)"
  have "section_end ls (Suc cur) = section_end ls (hunk_end ls cur)"
    using section_of_body [of ls "Suc cur"] by (simp add: section_end_def hunk_end_def)
  with c show ?thesis by (simp add: section_end_step)
qed

lemma file_body_cursor: "snd (file_body ls cur f) = section_end ls cur"
proof (induction cur f rule: file_body_induct [of ls])
  case (stop cur f)
  then show ?case by (simp add: file_body_stop section_end_stop)
next
  case (mark cur f)
  then show ?case by (simp add: file_body_mark section_end_step)
next
  case (hunk cur f)
  then show ?case by (simp add: file_body_hunk section_end_hunk)
qed

lemma section_end_ge: "cur \<le> section_end ls cur"
  by (simp add: section_end_def)

lemma section_end_le: "cur \<le> length ls \<Longrightarrow> section_end ls cur \<le> length ls"
proof -
  assume "cur \<le> length ls"
  moreover have "length (section_of ls cur) \<le> length (drop cur ls)"
    unfolding section_of_def by (rule length_takeWhile_le)
  ultimately show ?thesis by (simp add: section_end_def)
qed

definition file_of :: "string list \<Rightarrow> nat \<Rightarrow> FileDiff" where
  \<comment> \<open>the file \<^verbatim>\<open>parseFile\<close> returns for the section whose marker is line \<open>cur\<close>\<close>
  "file_of ls cur =
     tally_hunks (default_status (fst (file_body ls (Suc cur) (new_file (ls ! cur)))))"

lemma parseFile_eq: "parseFile ls cur = (Some (file_of ls cur), section_end ls (Suc cur))"
  using file_body_cursor [of ls "Suc cur" "new_file (ls ! cur)"]
  by (simp add: parseFile_def file_of_def Let_def case_prod_unfold)

lemma parseFile_cursor: "parseFile ls cur = (r, cur') \<Longrightarrow> cur < cur'"
  using section_end_ge [of "Suc cur" ls] by (simp add: parseFile_eq)

subsection \<open>parse\<close>

function parse_loop :: "string list \<Rightarrow> nat \<Rightarrow> FileDiff list \<Rightarrow> FileDiff list \<times> nat" where
  \<comment> \<open>the \<^verbatim>\<open>for\<close> loop of \<^verbatim>\<open>parse\<close>\<close>
  "parse_loop ls cur files =
     (if cur < length ls then
        let line = ls ! cur in
        if HasPrefix line ''diff --git'' then
          (case parseFile ls cur of
             (Some file, cur') \<Rightarrow> parse_loop ls cur' (files @ [file])
           | (None, cur') \<Rightarrow> parse_loop ls cur' files)
        else parse_loop ls (cur + 1) files
      else (files, cur))"
  by pat_completeness auto
termination
proof (relation "measure (\<lambda>(ls, cur, files). length ls - cur)")
qed (auto dest: parseFile_cursor [OF sym])

declare parse_loop.simps [simp del]

type_synonym error = string

definition parse :: "string \<Rightarrow> FileDiff list \<times> error option" where
  \<comment> \<open>\<^verbatim>\<open>newDiffParser(diff).parse()\<close>: the files, and the error, which is always \<^verbatim>\<open>nil\<close>\<close>
  "parse diff = (fst (parse_loop (Split diff) 0 []), None)"

subsection \<open>getUntrackedFileDiff\<close>

function untracked_lines :: "string list \<Rightarrow> nat \<Rightarrow> Line list \<Rightarrow> Line list" where
  \<comment> \<open>\<^verbatim>\<open>for i, line := range lines\<close>, from index \<open>i\<close> on\<close>
  "untracked_lines ls i diffLines =
     (if i < length ls then
        let lineNum = (word_of_nat i :: go_int) + 1 in
        untracked_lines ls (i + 1)
          (diffLines @ [\<lparr>Type = LineTypeAdded, OldNumber = None, NewNumber = Some lineNum,
                         Content = ls ! i\<rparr>])
      else diffLines)"
  by pat_completeness auto
termination
  by (relation "measure (\<lambda>(ls, i, diffLines). length ls - i)") auto

declare untracked_lines.simps [simp del]

definition untrackedFileDiff :: "string \<Rightarrow> string \<Rightarrow> FileDiff" where
  \<comment> \<open>what \<^verbatim>\<open>getUntrackedFileDiff\<close> builds from the bytes \<open>content\<close> of the file\<close>
  "untrackedFileDiff filepath content =
     (let ls = Split content;
          diffLines = untracked_lines ls 0 []
      in \<lparr>Path = filepath, OldPath = [], Status = FileStatusAdded,
          Additions = word_of_nat (length ls), Deletions = 0, IsBinary = False,
          Hunks = [\<lparr>OldStart = 0, OldLines = 0, NewStart = 1,
                    NewLines = word_of_nat (length ls),
                    Header = ''@@ -0,0 +1,'' @ Itoa (length ls) @ '' @@'',
                    Lines = diffLines\<rparr>]\<rparr>)"

definition getUntrackedFileDiff :: "(string \<Rightarrow> error + string) \<Rightarrow> string \<Rightarrow> int \<Rightarrow> error + FileDiff" where
  \<comment> \<open>\<^verbatim>\<open>getUntrackedFileDiff(filepath, contextLines)\<close>, with \<^verbatim>\<open>os.ReadFile\<close> as a function of
      the path that gives the content of the file or an error (an error is modelled
      by its message). The error of \<^verbatim>\<open>os.ReadFile\<close> is returned wrapped, as
      \<^verbatim>\<open>fmt.Errorf("failed to read untracked file %s: %w", filepath, err)\<close> formats it.
      \<^verbatim>\<open>contextLines\<close> is not used.\<close>
  "getUntrackedFileDiff ReadFile filepath contextLines =
     (case ReadFile filepath of
        Inl err \<Rightarrow> Inl (''failed to read untracked file '' @ filepath @ '': '' @ err)
      | Inr content \<Rightarrow> Inr (untrackedFileDiff filepath content))"

section \<open>Properties of the loops\<close>

text \<open>
  Each loop is unfolded once per line it reads, with an induction rule that follows
  these unfoldings. The properties of the parser are proved from them and checked on
  concrete diffs, which the simplifier evaluates with the rules \<open>parser_eval\<close>.
\<close>

subsection \<open>The files of \<^verbatim>\<open>parse\<close> and the hunks of a file\<close>

lemma parse_loop_end: "\<not> cur < length ls \<Longrightarrow> parse_loop ls cur fs = (fs, cur)"
  by (subst parse_loop.simps) simp

lemma parse_loop_skip:
  "cur < length ls \<Longrightarrow> \<not> is_marker (ls ! cur) \<Longrightarrow> parse_loop ls cur fs = parse_loop ls (Suc cur) fs"
  by (subst parse_loop.simps) (simp add: is_marker_def)

lemma parse_loop_file:
  "cur < length ls \<Longrightarrow> is_marker (ls ! cur) \<Longrightarrow>
   parse_loop ls cur fs = parse_loop ls (section_end ls (Suc cur)) (fs @ [file_of ls cur])"
  by (subst parse_loop.simps) (simp add: is_marker_def parseFile_eq)

lemma parse_loop_induct [consumes 0, case_names stop skip entry]:
  assumes stop: "\<And>cur fs. \<not> cur < length ls \<Longrightarrow> P cur fs"
    and skip: "\<And>cur fs. cur < length ls \<Longrightarrow> \<not> is_marker (ls ! cur) \<Longrightarrow> P (Suc cur) fs \<Longrightarrow> P cur fs"
    and entry: "\<And>cur fs. cur < length ls \<Longrightarrow> is_marker (ls ! cur) \<Longrightarrow>
           P (section_end ls (Suc cur)) (fs @ [file_of ls cur]) \<Longrightarrow> P cur fs"
  shows "P cur fs"
proof (induction "length ls - cur" arbitrary: cur fs rule: less_induct)
  case (less cur fs)
  show ?case
  proof (cases "cur < length ls")
    case False
    then show ?thesis by (rule stop)
  next
    case c: True
    show ?thesis
    proof (cases "is_marker (ls ! cur)")
      case False
      from c have "length ls - Suc cur < length ls - cur"
        by arith
      then have "P (Suc cur) fs"
        by (rule less)
      with c False show ?thesis by (rule skip)
    next
      case m: True
      from c section_end_ge [of "Suc cur" ls]
      have "length ls - section_end ls (Suc cur) < length ls - cur"
        by arith
      then have "P (section_end ls (Suc cur)) (fs @ [file_of ls cur])"
        by (rule less)
      with c m show ?thesis by (rule entry)
    qed
  qed
qed

definition sections :: "string list \<Rightarrow> FileDiff set" where
  "sections ls = {file_of ls c | c. c < length ls \<and> is_marker (ls ! c)}"

lemma parse_loop_files: "set (fst (parse_loop ls cur fs)) \<subseteq> set fs \<union> sections ls"
proof (induction cur fs rule: parse_loop_induct [of ls])
  case (stop cur fs)
  then show ?case by (simp add: parse_loop_end)
next
  case (skip cur fs)
  then show ?case by (simp add: parse_loop_skip)
next
  case (entry cur fs)
  then have "file_of ls cur \<in> sections ls"
    by (auto simp: sections_def)
  with entry show ?case by (auto simp: parse_loop_file)
qed


lemma parse_files: "f \<in> set (fst (parse diff)) \<Longrightarrow> f \<in> sections (Split diff)"
  using parse_loop_files [of "Split diff" 0 "[]"] by (auto simp: parse_def)

definition headers :: "string list \<Rightarrow> Hunk set" where
  "headers ls = {hunk_of ls k | k. k < length ls \<and> is_header (ls ! k)}"

lemma Hunks_mark: "Hunks (mark l f) = Hunks f"
  by (simp add: mark_def)

lemma file_body_hunks: "set (Hunks (fst (file_body ls cur f))) \<subseteq> set (Hunks f) \<union> headers ls"
proof (induction cur f rule: file_body_induct [of ls])
  case (stop cur f)
  then show ?case by (simp add: file_body_stop)
next
  case (mark cur f)
  then show ?case by (simp add: file_body_mark Hunks_mark)
next
  case (hunk cur f)
  then have "hunk_of ls cur \<in> headers ls"
    by (auto simp: headers_def)
  with hunk show ?case by (auto simp: file_body_hunk)
qed

definition lines_of :: "FileDiff \<Rightarrow> Line list" where
  "lines_of f = concat (map Lines (Hunks f))"

definition count_type :: "LineType \<Rightarrow> Line list \<Rightarrow> nat" where
  "count_type t xs = length (filter (\<lambda>l. Type l = t) xs)"

lemma foldl_tally:
  "foldl tally f xs =
     f\<lparr>Additions := Additions f + word_of_nat (count_type LineTypeAdded xs),
       Deletions := Deletions f + word_of_nat (count_type LineTypeDeleted xs)\<rparr>"
proof (induction xs arbitrary: f)
  case Nil
  show ?case by (simp add: count_type_def)
next
  case (Cons x xs)
  show ?case
  proof (cases "Type x")
    case LineTypeContext
    then have "tally f x = f"
      by (simp add: tally_def)
    with LineTypeContext show ?thesis
      by (simp add: Cons.IH count_type_def)
  next
    case LineTypeAdded
    then have "tally f x = f\<lparr>Additions := Additions f + 1\<rparr>"
      by (simp add: tally_def)
    with LineTypeAdded show ?thesis
      by (simp add: Cons.IH count_type_def add.assoc)
  next
    case LineTypeDeleted
    then have "tally f x = f\<lparr>Deletions := Deletions f + 1\<rparr>"
      by (simp add: tally_def)
    with LineTypeDeleted show ?thesis
      by (simp add: Cons.IH count_type_def add.assoc)
  qed
qed

lemma foldl_tally_hunks:
  "foldl (\<lambda>f hunk. foldl tally f (Lines hunk)) f hs =
     f\<lparr>Additions := Additions f + word_of_nat (count_type LineTypeAdded (concat (map Lines hs))),
       Deletions := Deletions f + word_of_nat (count_type LineTypeDeleted (concat (map Lines hs)))\<rparr>"
proof (induction hs arbitrary: f)
  case Nil
  show ?case by (simp add: count_type_def)
next
  case (Cons h hs)
  let ?G = "\<lambda>f hunk. foldl tally f (Lines hunk)"
  let ?f = "foldl tally f (Lines h)"
  have "foldl ?G f (h # hs) = foldl ?G ?f hs"
    by (simp only: foldl_Cons)
  also have "\<dots> =
     ?f\<lparr>Additions := Additions ?f + word_of_nat (count_type LineTypeAdded (concat (map Lines hs))),
        Deletions := Deletions ?f + word_of_nat (count_type LineTypeDeleted (concat (map Lines hs)))\<rparr>"
    by (rule Cons.IH)
  also have "\<dots> =
     f\<lparr>Additions := Additions f + word_of_nat (count_type LineTypeAdded (concat (map Lines (h # hs)))),
       Deletions := Deletions f + word_of_nat (count_type LineTypeDeleted (concat (map Lines (h # hs))))\<rparr>"
    by (simp add: foldl_tally count_type_def add.assoc)
  finally show ?case .
qed

lemma tally_hunks_eq:
  "tally_hunks f =
     f\<lparr>Additions := Additions f + word_of_nat (count_type LineTypeAdded (lines_of f)),
       Deletions := Deletions f + word_of_nat (count_type LineTypeDeleted (lines_of f))\<rparr>"
  by (simp add: tally_hunks_def foldl_tally_hunks lines_of_def)

lemma file_body_counts:
  "Additions (fst (file_body ls cur f)) = Additions f \<and>
   Deletions (fst (file_body ls cur f)) = Deletions f"
proof (induction cur f rule: file_body_induct [of ls])
  case (stop cur f)
  then show ?case by (simp add: file_body_stop)
next
  case (mark cur f)
  then show ?case by (simp add: file_body_mark mark_def)
next
  case (hunk cur f)
  then show ?case by (simp add: file_body_hunk)
qed

lemma new_file_counts: "Additions (new_file l) = 0 \<and> Deletions (new_file l) = 0"
  by (simp add: new_file_def Let_def split: option.splits prod.splits)

lemma file_of_counts:
  "Additions (file_of ls c) = word_of_nat (count_type LineTypeAdded (lines_of (file_of ls c))) \<and>
   Deletions (file_of ls c) = word_of_nat (count_type LineTypeDeleted (lines_of (file_of ls c)))"
  using file_body_counts [of ls "Suc c" "new_file (ls ! c)"] new_file_counts [of "ls ! c"]
  by (simp add: file_of_def tally_hunks_eq default_status_def lines_of_def)

subsection \<open>Scenario A\<close>

definition LF :: string where
  "LF = [CHR 0x0A]"

definition scenario_A :: string where
  "scenario_A = ''diff --git a/x.txt b/x.txt'' @ LF @ ''@@ -1,2 +1,3 @@'' @ LF @ '' a'' @ LF @
     ''-b'' @ LF @ ''+b2'' @ LF @ ''+c'' @ LF"

definition scenario_A_lines :: "string list" where
  "scenario_A_lines =
     [''diff --git a/x.txt b/x.txt'', ''@@ -1,2 +1,3 @@'', '' a'', ''-b'', ''+b2'', ''+c'', []]"

definition scenario_A_hunk :: Hunk where
  "scenario_A_hunk =
     \<lparr>OldStart = 1, OldLines = 2, NewStart = 1, NewLines = 3, Header = ''@@ -1,2 +1,3 @@'',
      Lines =
        [\<lparr>Type = LineTypeContext, OldNumber = Some 1, NewNumber = Some 1, Content = ''a''\<rparr>,
         \<lparr>Type = LineTypeDeleted, OldNumber = Some 2, NewNumber = None, Content = ''b''\<rparr>,
         \<lparr>Type = LineTypeAdded, OldNumber = None, NewNumber = Some 2, Content = ''b2''\<rparr>,
         \<lparr>Type = LineTypeAdded, OldNumber = None, NewNumber = Some 3, Content = ''c''\<rparr>]\<rparr>"

definition scenario_A_file :: FileDiff where
  "scenario_A_file =
     \<lparr>Path = ''x.txt'', OldPath = ''x.txt'', Status = FileStatusModified, Additions = 2,
      Deletions = 1, IsBinary = False, Hunks = [scenario_A_hunk]\<rparr>"

lemma Split_scenario_A: "Split scenario_A = scenario_A_lines"
  by (simp add: scenario_A_def scenario_A_lines_def LF_def)

lemmas parser_eval =
  parse_loop_file parse_loop_skip parse_loop_end file_of_def new_file_def default_status_def
  tally_hunks_def tally_def file_body_mark file_body_hunk file_body_stop mark_def
  hunk_of_def hunk_end_def new_hunk_def body_of_def stops_def is_marker_def is_header_def
  HasPrefix_def TrimPrefix_def section_end_def section_of_def
  match_hunk_at_def opt_count_def is_digit_def match_paths_at_def is_lower_def
  Atoi_def decimal_def digit_val_def MaxInt_def

lemma parse_loop_A: "parse_loop scenario_A_lines 0 [] = ([scenario_A_file], 7)"
  by (simp add: scenario_A_lines_def scenario_A_file_def scenario_A_hunk_def parser_eval)

lemma parse_scenario_A: "parse scenario_A = ([scenario_A_file], None)"
  by (simp add: parse_def Split_scenario_A parse_loop_A)

text \<open>
  C1. Scenario A: the input \<^verbatim>\<open>diff --git a/x.txt b/x.txt\n@@ -1,2 +1,3 @@\n a\n-b\n+b2\n+c\n\<close>
  parses to exactly one file with path and old path \<^verbatim>\<open>x.txt\<close>, status Modified, two
  additions, one deletion, not binary, and a single hunk (old 1,2; new 1,3) whose lines are
  Context "a" (old 1, new 1), Deleted "b" (old 2, no new number), Added "b2" (new 2, no
  old number), Added "c" (new 3, no old number). No error is returned.
\<close>

theorem parse_scenario_A_result:
  "parse (''diff --git a/x.txt b/x.txt'' @ LF @ ''@@ -1,2 +1,3 @@'' @ LF @ '' a'' @ LF @
          ''-b'' @ LF @ ''+b2'' @ LF @ ''+c'' @ LF) =
   ([\<lparr>Path = ''x.txt'', OldPath = ''x.txt'', Status = FileStatusModified, Additions = 2,
      Deletions = 1, IsBinary = False,
      Hunks =
        [\<lparr>OldStart = 1, OldLines = 2, NewStart = 1, NewLines = 3,
          Header = ''@@ -1,2 +1,3 @@'',
          Lines =
            [\<lparr>Type = LineTypeContext, OldNumber = Some 1, NewNumber = Some 1, Content = ''a''\<rparr>,
             \<lparr>Type = LineTypeDeleted, OldNumber = Some 2, NewNumber = None, Content = ''b''\<rparr>,
             \<lparr>Type = LineTypeAdded, OldNumber = None, NewNumber = Some 2, Content = ''b2''\<rparr>,
             \<lparr>Type = LineTypeAdded, OldNumber = None, NewNumber = Some 3, Content = ''c''\<rparr>]\<rparr>]\<rparr>],
    None)"
  using parse_scenario_A
  by (simp only: scenario_A_def scenario_A_file_def scenario_A_hunk_def)

subsection \<open>The tallies\<close>

lemma sint_word_of_nat: "n \<le> MaxInt \<Longrightarrow> sint (word_of_nat n :: go_int) = int n"
proof -
  assume "n \<le> MaxInt"
  then have "int n < 2 ^ 63"
    by (simp add: MaxInt_def)
  then have "signed_take_bit 63 (int n) = int n"
    by (intro signed_take_bit_int_eq_self) simp_all
  moreover have "sint (word_of_nat n :: go_int) = signed_take_bit 63 (int n)"
    by (simp only: signed_of_nat) simp
  ultimately show ?thesis
    by simp
qed

lemma scan_lines_length: "length (scan_lines ol nl xs) \<le> length xs"
  by (induction xs arbitrary: ol nl) (auto simp: le_SucI)

lemma lines_of_mark: "lines_of (mark l f) = lines_of f"
  by (simp add: lines_of_def Hunks_mark)

lemma Lines_hunk_of: "Lines (hunk_of ls k) = scan_lines (OldStart (hunk_of ls k)) (NewStart (hunk_of ls k)) (body_of ls (Suc k))"
  by (simp add: hunk_of_def Let_def)

lemma file_body_total:
  "length (lines_of (fst (file_body ls cur f))) + cur \<le> length (lines_of f) + section_end ls cur"
proof (induction cur f rule: file_body_induct [of ls])
  case (stop cur f)
  then show ?case by (simp add: file_body_stop section_end_stop)
next
  case (mark cur f)
  then show ?case by (simp add: file_body_mark section_end_step lines_of_mark)
next
  case (hunk cur f)
  have "length (Lines (hunk_of ls cur)) + Suc cur \<le> hunk_end ls cur"
    using scan_lines_length [of _ _ "body_of ls (Suc cur)"]
    by (simp add: Lines_hunk_of hunk_end_def)
  with hunk show ?case
    by (simp add: file_body_hunk section_end_hunk lines_of_def)
qed

lemma Hunks_file_of: "Hunks (file_of ls c) = Hunks (fst (file_body ls (Suc c) (new_file (ls ! c))))"
  by (simp add: file_of_def tally_hunks_eq default_status_def)

lemma Hunks_new_file: "Hunks (new_file l) = []"
  by (simp add: new_file_def Let_def split: option.splits prod.splits)

lemma file_of_total: "c < length ls \<Longrightarrow> length (lines_of (file_of ls c)) < length ls"
proof -
  assume c: "c < length ls"
  have "lines_of (file_of ls c) = lines_of (fst (file_body ls (Suc c) (new_file (ls ! c))))"
    by (simp add: lines_of_def Hunks_file_of)
  moreover have "lines_of (new_file (ls ! c)) = []"
    by (simp add: lines_of_def Hunks_new_file)
  moreover have "section_end ls (Suc c) \<le> length ls"
    using c by (intro section_end_le) simp
  ultimately show ?thesis
    using file_body_total [of ls "Suc c" "new_file (ls ! c)"] by simp
qed

lemma count_type_le: "count_type t xs \<le> length xs"
  by (simp add: count_type_def)

text \<open>
  C2. For every input and every file \<^verbatim>\<open>parse\<close> returns, \<^verbatim>\<open>Additions\<close> is the number of
  lines of type Added across the hunks of the file and \<^verbatim>\<open>Deletions\<close> the number of lines of
  type Deleted. The fields are 64-bit integers, so the equality is first stated in
  \<^typ>\<open>64 word\<close>; a file has fewer lines in its hunks than the input has lines, so with the
  number of input lines within the range of \<^verbatim>\<open>int\<close> (as the length of every Go slice is) the
  fields read as integers are the two counts exactly.
\<close>

theorem tallies_count_lines:
  assumes "f \<in> set (fst (parse diff))"
  shows "Additions f = word_of_nat (count_type LineTypeAdded (lines_of f)) \<and>
         Deletions f = word_of_nat (count_type LineTypeDeleted (lines_of f)) \<and>
         (length (Split diff) \<le> MaxInt \<longrightarrow>
            sint (Additions f) = int (count_type LineTypeAdded (lines_of f)) \<and>
            sint (Deletions f) = int (count_type LineTypeDeleted (lines_of f)))"
proof -
  from assms have "f \<in> sections (Split diff)"
    by (rule parse_files)
  then obtain c where c: "c < length (Split diff)" and f: "f = file_of (Split diff) c"
    unfolding sections_def by blast
  have w: "Additions f = word_of_nat (count_type LineTypeAdded (lines_of f))"
    "Deletions f = word_of_nat (count_type LineTypeDeleted (lines_of f))"
    using file_of_counts [of "Split diff" c] by (simp_all add: f)
  have "count_type t (lines_of f) \<le> MaxInt" if "length (Split diff) \<le> MaxInt" for t
    using that file_of_total [OF c] count_type_le [of t "lines_of f"] by (simp add: f)
  then show ?thesis
    using w by (simp add: sint_word_of_nat)
qed

theorem tallies_count_lines_witness:
  "scenario_A_file \<in> set (fst (parse scenario_A)) \<and>
   length (Split scenario_A) \<le> MaxInt \<and>
   sint (Additions scenario_A_file) = int (count_type LineTypeAdded (lines_of scenario_A_file)) \<and>
   sint (Deletions scenario_A_file) = int (count_type LineTypeDeleted (lines_of scenario_A_file)) \<and>
   count_type LineTypeAdded (lines_of scenario_A_file) = 2 \<and>
   count_type LineTypeDeleted (lines_of scenario_A_file) = 1"
proof -
  have m: "scenario_A_file \<in> set (fst (parse scenario_A))"
    by (simp add: parse_scenario_A)
  have l: "length (Split scenario_A) \<le> MaxInt"
    by (simp add: Split_scenario_A scenario_A_lines_def MaxInt_def)
  have "count_type LineTypeAdded (lines_of scenario_A_file) = 2"
    "count_type LineTypeDeleted (lines_of scenario_A_file) = 1"
    by (simp_all add: count_type_def lines_of_def scenario_A_file_def scenario_A_hunk_def)
  with m l tallies_count_lines [OF m] show ?thesis
    by simp
qed

subsection \<open>The lines of a hunk\<close>

lemma file_of_hunks: "set (Hunks (file_of ls c)) \<subseteq> headers ls"
  using file_body_hunks [of ls "Suc c" "new_file (ls ! c)"]
  by (simp add: Hunks_file_of Hunks_new_file)

lemma parse_hunks:
  assumes "f \<in> set (fst (parse diff))" "h \<in> set (Hunks f)"
  obtains k where "k < length (Split diff)" "is_header (Split diff ! k)" "h = hunk_of (Split diff) k"
proof -
  from assms(1) have "f \<in> sections (Split diff)"
    by (rule parse_files)
  then obtain c where "f = file_of (Split diff) c"
    unfolding sections_def by blast
  with assms(2) file_of_hunks [of "Split diff" c] have "h \<in> headers (Split diff)"
    by auto
  then show ?thesis
    unfolding headers_def using that by blast
qed

lemma hunk_of_fields:
  "OldStart (hunk_of ls k) = OldStart (new_hunk (ls ! k) (the (match_hunk (ls ! k))))"
  "NewStart (hunk_of ls k) = NewStart (new_hunk (ls ! k) (the (match_hunk (ls ! k))))"
  "Header (hunk_of ls k) = ls ! k"
  by (simp_all add: hunk_of_def Let_def new_hunk_def split: prod.splits)

fun somes :: "'a option list \<Rightarrow> 'a list" where
  "somes [] = []"
| "somes (None # xs) = somes xs"
| "somes (Some x # xs) = x # somes xs"

definition old_numbers :: "Hunk \<Rightarrow> go_int list" where
  \<comment> \<open>the old line numbers of the lines that carry one, in order\<close>
  "old_numbers h = somes (map OldNumber (Lines h))"

definition new_numbers :: "Hunk \<Rightarrow> go_int list" where
  "new_numbers h = somes (map NewNumber (Lines h))"

definition number_pattern :: "Line \<Rightarrow> bool" where
  \<comment> \<open>which numbers a line carries, by its type\<close>
  "number_pattern l =
     (case Type l of
        LineTypeAdded \<Rightarrow> NewNumber l \<noteq> None \<and> OldNumber l = None
      | LineTypeDeleted \<Rightarrow> OldNumber l \<noteq> None \<and> NewNumber l = None
      | LineTypeContext \<Rightarrow> OldNumber l \<noteq> None \<and> NewNumber l \<noteq> None)"

fun contiguous_from :: "go_int \<Rightarrow> go_int list \<Rightarrow> bool" where
  \<comment> \<open>the numbers are \<open>start\<close>, \<open>start + 1\<close>, \<open>start + 2\<close>, ... in 64-bit arithmetic\<close>
  "contiguous_from start [] = True"
| "contiguous_from start (n # ns) = (n = start \<and> contiguous_from (start + 1) ns)"

definition strictly_increasing :: "go_int list \<Rightarrow> bool" where
  \<comment> \<open>as the signed integers they are in Go\<close>
  "strictly_increasing ns = sorted_wrt (<) (map sint ns)"

lemma scan_lines_pattern: "l \<in> set (scan_lines ol nl xs) \<Longrightarrow> number_pattern l"
  by (induction xs arbitrary: ol nl) (auto simp: number_pattern_def split: if_splits)

lemma scan_lines_old: "contiguous_from ol (somes (map OldNumber (scan_lines ol nl xs)))"
  by (induction xs arbitrary: ol nl) simp_all

lemma scan_lines_new: "contiguous_from nl (somes (map NewNumber (scan_lines ol nl xs)))"
  by (induction xs arbitrary: ol nl) simp_all

lemma contiguous_nth: "contiguous_from s ns \<Longrightarrow> i < length ns \<Longrightarrow> ns ! i = s + word_of_nat i"
proof (induction ns arbitrary: s i)
  case Nil
  then show ?case by simp
next
  case (Cons n ns)
  show ?case
  proof (cases i)
    case 0
    with Cons.prems show ?thesis by simp
  next
    case (Suc j)
    with Cons.prems have "ns ! j = (s + 1) + word_of_nat j"
      by (intro Cons.IH) simp_all
    with Suc show ?thesis by (simp add: add.assoc)
  qed
qed

lemma sint_add_nat:
  assumes "sint s + int i < 2 ^ 63"
  shows "sint (s + word_of_nat i :: go_int) = sint s + int i"
proof -
  have "s + word_of_nat i = word_of_int (sint s + int i)"
    by simp
  then have "sint (s + word_of_nat i) = signed_take_bit 63 (sint s + int i)"
    by (simp only: sint_sbintrunc') simp
  moreover have "- (2 ^ 63) \<le> sint s"
    using sint_ge [of s] by simp
  then have "signed_take_bit 63 (sint s + int i) = sint s + int i"
    using assms by (intro signed_take_bit_int_eq_self) simp_all
  ultimately show ?thesis by simp
qed

lemma contiguous_increasing:
  assumes "contiguous_from s ns" "sint s + int (length ns) \<le> 2 ^ 63"
  shows "strictly_increasing ns"
proof -
  have "sint (ns ! i) = sint s + int i" if "i < length ns" for i
  proof -
    from that assms(2) have "sint s + int i < 2 ^ 63"
      by simp
    then show ?thesis
      using contiguous_nth [OF assms(1) that] by (simp add: sint_add_nat)
  qed
  then show ?thesis
    by (simp add: strictly_increasing_def sorted_wrt_iff_nth_less)
qed

text \<open>
  C4. For every hunk of every file \<^verbatim>\<open>parse\<close> returns: an Added line carries a new number
  and no old number, a Deleted line an old number and no new number, a Context line
  both. The old numbers are \<^verbatim>\<open>OldStart\<close>, \<^verbatim>\<open>OldStart + 1\<close>, ... and the new numbers
  \<^verbatim>\<open>NewStart\<close>, \<^verbatim>\<open>NewStart + 1\<close>, ..., each side counted on its own in 64-bit
  arithmetic; a side is strictly increasing when its start plus the number of its
  lines does not pass the largest \<^verbatim>\<open>int\<close> by more than one, that is, when the counter
  never wraps around on a stored line.
\<close>

theorem hunk_line_numbers:
  assumes "f \<in> set (fst (parse diff))" "h \<in> set (Hunks f)"
  shows "(\<forall>l \<in> set (Lines h). number_pattern l) \<and>
         contiguous_from (OldStart h) (old_numbers h) \<and>
         contiguous_from (NewStart h) (new_numbers h) \<and>
         (sint (OldStart h) + int (length (old_numbers h)) \<le> 2 ^ 63 \<longrightarrow>
            strictly_increasing (old_numbers h)) \<and>
         (sint (NewStart h) + int (length (new_numbers h)) \<le> 2 ^ 63 \<longrightarrow>
            strictly_increasing (new_numbers h))"
proof -
  from assms obtain k where h: "h = hunk_of (Split diff) k"
    by (rule parse_hunks)
  let ?b = "body_of (Split diff) (Suc k)"
  have l: "Lines h = scan_lines (OldStart h) (NewStart h) ?b"
    unfolding h by (rule Lines_hunk_of)
  have p: "\<forall>l \<in> set (Lines h). number_pattern l"
    using scan_lines_pattern [of _ "OldStart h" "NewStart h" ?b] by (simp add: l)
  have o: "contiguous_from (OldStart h) (old_numbers h)"
    using scan_lines_old [of "OldStart h" "NewStart h" ?b] by (simp add: old_numbers_def l)
  have n: "contiguous_from (NewStart h) (new_numbers h)"
    using scan_lines_new [of "NewStart h" "OldStart h" ?b] by (simp add: new_numbers_def l)
  from p o n show ?thesis
    by (simp add: contiguous_increasing)
qed

theorem hunk_line_numbers_witness:
  "scenario_A_file \<in> set (fst (parse scenario_A)) \<and>
   scenario_A_hunk \<in> set (Hunks scenario_A_file) \<and>
   Lines scenario_A_hunk \<noteq> [] \<and>
   number_pattern (Lines scenario_A_hunk ! 0) \<and>
   number_pattern (Lines scenario_A_hunk ! 1) \<and>
   number_pattern (Lines scenario_A_hunk ! 2) \<and>
   old_numbers scenario_A_hunk = [1, 2] \<and>
   new_numbers scenario_A_hunk = [1, 2, 3] \<and>
   sint (OldStart scenario_A_hunk) + int (length (old_numbers scenario_A_hunk)) \<le> 2 ^ 63 \<and>
   sint (NewStart scenario_A_hunk) + int (length (new_numbers scenario_A_hunk)) \<le> 2 ^ 63 \<and>
   contiguous_from (OldStart scenario_A_hunk) (old_numbers scenario_A_hunk) \<and>
   contiguous_from (NewStart scenario_A_hunk) (new_numbers scenario_A_hunk) \<and>
   strictly_increasing (old_numbers scenario_A_hunk) \<and>
   strictly_increasing (new_numbers scenario_A_hunk)"
proof -
  have m: "scenario_A_file \<in> set (fst (parse scenario_A))"
    "scenario_A_hunk \<in> set (Hunks scenario_A_file)"
    by (simp_all add: parse_scenario_A scenario_A_file_def)
  have e: "old_numbers scenario_A_hunk = [1, 2]" "new_numbers scenario_A_hunk = [1, 2, 3]"
    "OldStart scenario_A_hunk = 1" "NewStart scenario_A_hunk = 1"
    by (simp_all add: old_numbers_def new_numbers_def scenario_A_hunk_def)
  have n: "Lines scenario_A_hunk \<noteq> []"
    by (simp add: scenario_A_hunk_def)
  have b: "sint (OldStart scenario_A_hunk) + int (length (old_numbers scenario_A_hunk)) \<le> 2 ^ 63"
    "sint (NewStart scenario_A_hunk) + int (length (new_numbers scenario_A_hunk)) \<le> 2 ^ 63"
    by (simp_all add: e)
  have i: "Lines scenario_A_hunk ! 0 \<in> set (Lines scenario_A_hunk)"
    "Lines scenario_A_hunk ! 1 \<in> set (Lines scenario_A_hunk)"
    "Lines scenario_A_hunk ! 2 \<in> set (Lines scenario_A_hunk)"
    by (simp_all add: scenario_A_hunk_def)
  from hunk_line_numbers [OF m] m n e(1,2) b i show ?thesis
    by blast
qed

definition overflow_diff :: string where
  "overflow_diff =
     ''diff --git a/x b/x'' @ LF @ ''@@ -9223372036854775807 +1 @@'' @ LF @ ''-a'' @ LF @ ''-b''"

definition overflow_hunk :: Hunk where
  "overflow_hunk =
     \<lparr>OldStart = 9223372036854775807, OldLines = 1, NewStart = 1, NewLines = 1,
      Header = ''@@ -9223372036854775807 +1 @@'',
      Lines =
        [\<lparr>Type = LineTypeDeleted, OldNumber = Some 9223372036854775807, NewNumber = None,
          Content = ''a''\<rparr>,
         \<lparr>Type = LineTypeDeleted, OldNumber = Some (- 9223372036854775808), NewNumber = None,
          Content = ''b''\<rparr>]\<rparr>"

definition overflow_file :: FileDiff where
  "overflow_file =
     \<lparr>Path = ''x'', OldPath = ''x'', Status = FileStatusModified, Additions = 0,
      Deletions = 2, IsBinary = False, Hunks = [overflow_hunk]\<rparr>"

lemma parse_overflow_diff: "parse overflow_diff = ([overflow_file], None)"
proof -
  have "Split overflow_diff =
      [''diff --git a/x b/x'', ''@@ -9223372036854775807 +1 @@'', ''-a'', ''-b'']"
    by (simp add: overflow_diff_def LF_def)
  then show ?thesis
    by (simp add: parse_def overflow_file_def overflow_hunk_def parser_eval)
qed

theorem hunk_line_numbers_counterexample:
  "fst (parse overflow_diff) = [overflow_file] \<and>
   Hunks overflow_file = [overflow_hunk] \<and>
   OldStart overflow_hunk = 9223372036854775807 \<and>
   map sint (old_numbers overflow_hunk) = [9223372036854775807, - 9223372036854775808] \<and>
   \<not> strictly_increasing (old_numbers overflow_hunk)"
  by (simp add: parse_overflow_diff overflow_file_def overflow_hunk_def old_numbers_def
      strictly_increasing_def)

subsection \<open>The text of a hunk body\<close>

definition marker_of :: "LineType \<Rightarrow> char" where
  \<comment> \<open>the prefix a line of the type had in the diff\<close>
  "marker_of t =
     (case t of LineTypeAdded \<Rightarrow> CHR ''+'' | LineTypeDeleted \<Rightarrow> CHR ''-'' | LineTypeContext \<Rightarrow> CHR '' '')"

definition render :: "Line \<Rightarrow> string" where
  "render l = marker_of (Type l) # Content l"

fun join_lines :: "string list \<Rightarrow> string" where
  \<comment> \<open>the lines separated by newlines\<close>
  "join_lines [] = []"
| "join_lines [l] = l"
| "join_lines (l # m # ls) = l @ CHR 0x0A # join_lines (m # ls)"

definition stored :: "string \<Rightarrow> bool" where
  \<comment> \<open>the lines of a hunk body that \<^verbatim>\<open>parseHunk\<close> keeps: those that start with
      \<^verbatim>\<open>+\<close>, \<^verbatim>\<open>-\<close> or a space\<close>
  "stored l = (l \<noteq> [] \<and> (hd l = CHR ''+'' \<or> hd l = CHR ''-'' \<or> hd l = CHR '' ''))"

definition no_newline_marker :: "string \<Rightarrow> bool" where
  \<comment> \<open>a line that starts with a backslash (\<^verbatim>\<open>\ No newline at end of file\<close>)\<close>
  "no_newline_marker l = (l \<noteq> [] \<and> hd l = CHR 0x5C)"

definition without_markers :: "string list \<Rightarrow> string list" where
  \<comment> \<open>the lines, the backslash lines left out\<close>
  "without_markers ls = filter (\<lambda>l. \<not> no_newline_marker l) ls"

lemma hd_tl_eq: "a \<noteq> [] \<Longrightarrow> hd a = c \<Longrightarrow> c # tl a = a"
  by (cases a) simp_all

lemma render_scan_lines: "map render (scan_lines ol nl xs) = filter stored xs"
  by (induction xs arbitrary: ol nl) (auto simp: render_def marker_of_def stored_def hd_tl_eq)

text \<open>
  C5. For every hunk of every file \<^verbatim>\<open>parse\<close> returns, with its header at line \<open>k\<close> of the
  input: the stored lines, each written as its prefix (\<^verbatim>\<open>+\<close> for Added, \<^verbatim>\<open>-\<close> for Deleted,
  a space for Context) followed by its content, are in order the lines of the hunk
  body that start with \<^verbatim>\<open>+\<close>, \<^verbatim>\<open>-\<close> or a space; joined by newlines the two texts are
  the same. The body is the run of lines after the header up to the next line that
  starts with \<^verbatim>\<open>@@\<close> or \<^verbatim>\<open>diff --git\<close>, or the end of the input. Empty lines, backslash
  lines and lines with any other first byte are the ones left out.
\<close>

theorem hunk_body_round_trip:
  assumes "f \<in> set (fst (parse diff))" "h \<in> set (Hunks f)"
  shows "\<exists>k. k < length (Split diff) \<and> Header h = Split diff ! k \<and>
           map render (Lines h) = filter stored (body_of (Split diff) (Suc k)) \<and>
           join_lines (map render (Lines h)) =
             join_lines (filter stored (body_of (Split diff) (Suc k)))"
proof -
  from assms obtain k where k: "k < length (Split diff)" and h: "h = hunk_of (Split diff) k"
    by (rule parse_hunks)
  have "map render (Lines h) = filter stored (body_of (Split diff) (Suc k))"
    unfolding h by (simp add: Lines_hunk_of render_scan_lines)
  moreover have "Header h = Split diff ! k"
    unfolding h by (rule hunk_of_fields)
  ultimately show ?thesis
    using k by auto
qed

definition junk_diff :: string where
  "junk_diff = ''diff --git a/x b/x'' @ LF @ ''@@ -1 +1,2 @@'' @ LF @ ''+a'' @ LF @ ''junk'' @ LF @ ''+b''"

definition junk_hunk :: Hunk where
  "junk_hunk =
     \<lparr>OldStart = 1, OldLines = 1, NewStart = 1, NewLines = 2, Header = ''@@ -1 +1,2 @@'',
      Lines =
        [\<lparr>Type = LineTypeAdded, OldNumber = None, NewNumber = Some 1, Content = ''a''\<rparr>,
         \<lparr>Type = LineTypeAdded, OldNumber = None, NewNumber = Some 2, Content = ''b''\<rparr>]\<rparr>"

definition junk_file :: FileDiff where
  "junk_file =
     \<lparr>Path = ''x'', OldPath = ''x'', Status = FileStatusModified, Additions = 2,
      Deletions = 0, IsBinary = False, Hunks = [junk_hunk]\<rparr>"

lemma Split_junk_diff:
  "Split junk_diff = [''diff --git a/x b/x'', ''@@ -1 +1,2 @@'', ''+a'', ''junk'', ''+b'']"
  by (simp add: junk_diff_def LF_def)

lemma parse_junk_diff: "parse junk_diff = ([junk_file], None)"
  by (simp add: parse_def Split_junk_diff junk_file_def junk_hunk_def parser_eval)

theorem hunk_body_round_trip_witness:
  "scenario_A_file \<in> set (fst (parse scenario_A)) \<and>
   scenario_A_hunk \<in> set (Hunks scenario_A_file) \<and>
   (\<exists>k. k < length (Split scenario_A) \<and> Header scenario_A_hunk = Split scenario_A ! k \<and>
      map render (Lines scenario_A_hunk) = filter stored (body_of (Split scenario_A) (Suc k)) \<and>
      join_lines (map render (Lines scenario_A_hunk)) =
        join_lines (filter stored (body_of (Split scenario_A) (Suc k)))) \<and>
   join_lines (map render (Lines scenario_A_hunk)) = '' a'' @ LF @ ''-b'' @ LF @ ''+b2'' @ LF @ ''+c''"
proof -
  have m: "scenario_A_file \<in> set (fst (parse scenario_A))"
    "scenario_A_hunk \<in> set (Hunks scenario_A_file)"
    by (simp_all add: parse_scenario_A scenario_A_file_def)
  have "join_lines (map render (Lines scenario_A_hunk)) =
      '' a'' @ LF @ ''-b'' @ LF @ ''+b2'' @ LF @ ''+c''"
    by (simp add: scenario_A_hunk_def render_def marker_of_def LF_def)
  with hunk_body_round_trip [OF m] m show ?thesis
    by blast
qed

theorem hunk_body_round_trip_counterexample:
  "fst (parse junk_diff) = [junk_file] \<and>
   Hunks junk_file = [junk_hunk] \<and>
   Header junk_hunk = Split junk_diff ! 1 \<and>
   without_markers (body_of (Split junk_diff) 2) = [''+a'', ''junk'', ''+b''] \<and>
   map render (Lines junk_hunk) = [''+a'', ''+b''] \<and>
   join_lines (map render (Lines junk_hunk)) \<noteq>
     join_lines (without_markers (body_of (Split junk_diff) 2))"
  by (simp add: parse_junk_diff Split_junk_diff junk_file_def junk_hunk_def without_markers_def
      no_newline_marker_def body_of_def stops_def HasPrefix_def render_def marker_of_def)

subsection \<open>The lines of a section outside its hunks\<close>

lemma length_dropWhile_less [termination_simp]: "length (dropWhile P xs) < Suc (length xs)"
  by (simp add: length_dropWhile_le less_Suc_eq_le)

fun visible :: "string list \<Rightarrow> string list" where
  \<comment> \<open>of the lines of a section, those the loop of \<^verbatim>\<open>parseFile\<close> reads itself: a hunk
      header and the body after it are read by \<^verbatim>\<open>parseHunk\<close>\<close>
  "visible [] = []"
| "visible (l # ls) =
     (if is_header l then visible (dropWhile (\<lambda>l. \<not> stops l) ls) else l # visible ls)"

lemma mark_Hunks_update: "mark l (f\<lparr>Hunks := hs\<rparr>) = (mark l f)\<lparr>Hunks := hs\<rparr>"
  by (simp add: mark_def)

lemma fold_mark_Hunks_update: "fold mark xs (f\<lparr>Hunks := hs\<rparr>) = (fold mark xs f)\<lparr>Hunks := hs\<rparr>"
  by (induction xs arbitrary: f) (simp_all add: mark_Hunks_update)

lemma section_of_stop:
  "\<not> (cur < length ls \<and> \<not> is_marker (ls ! cur)) \<Longrightarrow> section_of ls cur = []"
  using section_end_stop [of cur ls] by (simp add: section_end_def)

lemma stops_after_body:
  "section_of ls (cur + length (body_of ls cur)) = [] \<or>
   stops (hd (section_of ls (cur + length (body_of ls cur))))"
proof -
  let ?e = "cur + length (body_of ls cur)"
  show ?thesis
  proof (cases "?e < length ls \<and> \<not> is_marker (ls ! ?e)")
    case False
    then show ?thesis by (simp add: section_of_stop)
  next
    case True
    then have "length (takeWhile (\<lambda>l. \<not> stops l) (drop cur ls)) < length (drop cur ls)"
      by (simp add: body_of_def) arith
    then have "\<not> \<not> stops (drop cur ls ! length (takeWhile (\<lambda>l. \<not> stops l) (drop cur ls)))"
      by (rule nth_length_takeWhile)
    with True have "stops (ls ! ?e)"
      by (simp add: body_of_def)
    with True show ?thesis
      by (simp add: section_of_step)
  qed
qed

lemma dropWhile_section:
  "dropWhile (\<lambda>l. \<not> stops l) (section_of ls cur) = section_of ls (cur + length (body_of ls cur))"
proof -
  let ?r = "section_of ls (cur + length (body_of ls cur))"
  have b: "\<And>l. l \<in> set (body_of ls cur) \<Longrightarrow> \<not> stops l"
    unfolding body_of_def by (auto dest: set_takeWhileD)
  have "dropWhile (\<lambda>l. \<not> stops l) (body_of ls cur @ ?r) = dropWhile (\<lambda>l. \<not> stops l) ?r"
    using b by (simp add: dropWhile_append2)
  also have "\<dots> = ?r"
    using stops_after_body [of ls cur] by (cases ?r) auto
  finally show ?thesis
    using section_of_body [of ls cur] by simp
qed

lemma file_body_visible:
  "fst (file_body ls cur f) =
     (fold mark (visible (section_of ls cur)) f)\<lparr>Hunks := Hunks (fst (file_body ls cur f))\<rparr>"
proof (induction cur f rule: file_body_induct [of ls])
  case (stop cur f)
  then show ?case by (simp add: file_body_stop section_of_stop)
next
  case (mark cur f)
  then show ?case by (simp add: file_body_mark section_of_step)
next
  case (hunk cur f)
  have "visible (section_of ls cur) = visible (section_of ls (hunk_end ls cur))"
    using hunk(1,2,3) dropWhile_section [of ls "Suc cur"]
    by (simp add: section_of_step hunk_end_def)
  with hunk show ?case
    by (simp add: file_body_hunk fold_mark_Hunks_update)
qed

definition status_of_line :: "string \<Rightarrow> FileStatus option" where
  \<comment> \<open>the status a line assigns, read off the three status markers\<close>
  "status_of_line l =
     (if HasPrefix l ''new file'' then Some FileStatusAdded
      else if HasPrefix l ''deleted file'' then Some FileStatusDeleted
      else if HasPrefix l ''rename from'' then Some FileStatusRenamed
      else None)"

definition rename_of_line :: "string \<Rightarrow> string option" where
  \<comment> \<open>the old path a \<^verbatim>\<open>rename from\<close> line assigns\<close>
  "rename_of_line l =
     (if HasPrefix l ''rename from'' then Some (TrimPrefix l ''rename from '') else None)"

fun last_of :: "'a option list \<Rightarrow> 'a option" where
  \<comment> \<open>the last entry that is not \<^verbatim>\<open>None\<close>\<close>
  "last_of [] = None"
| "last_of (x # xs) = (case last_of xs of Some y \<Rightarrow> Some y | None \<Rightarrow> x)"

definition marker_paths :: "string \<Rightarrow> string \<times> string" where
  \<comment> \<open>old path and path as the marker line gives them: the two groups of the path
      pattern, or two empty strings\<close>
  "marker_paths l = (case match_paths l of Some (m1, m2) \<Rightarrow> (m1, m2) | None \<Rightarrow> ([], []))"

lemma Status_mark: "Status (mark l f) = (case status_of_line l of None \<Rightarrow> Status f | Some s \<Rightarrow> s)"
  by (simp add: mark_def status_of_line_def)

lemma OldPath_mark: "OldPath (mark l f) = (case rename_of_line l of None \<Rightarrow> OldPath f | Some p \<Rightarrow> p)"
  by (simp add: mark_def rename_of_line_def HasPrefix_Cons)

lemma IsBinary_mark: "IsBinary (mark l f) = (IsBinary f \<or> HasPrefix l ''Binary files'')"
  by (simp add: mark_def HasPrefix_Cons) blast


lemma Status_fold_mark:
  "Status (fold mark xs f) = (case last_of (map status_of_line xs) of None \<Rightarrow> Status f | Some s \<Rightarrow> s)"
  by (induction xs arbitrary: f) (simp_all add: Status_mark split: option.splits)

lemma OldPath_fold_mark:
  "OldPath (fold mark xs f) = (case last_of (map rename_of_line xs) of None \<Rightarrow> OldPath f | Some p \<Rightarrow> p)"
  by (induction xs arbitrary: f) (simp_all add: OldPath_mark split: option.splits)

lemma IsBinary_fold_mark:
  "IsBinary (fold mark xs f) = (IsBinary f \<or> (\<exists>l \<in> set xs. HasPrefix l ''Binary files''))"
  by (induction xs arbitrary: f) (auto simp: IsBinary_mark)


lemma status_of_line_set: "status_of_line l \<noteq> Some FileStatusUnset"
  by (simp add: status_of_line_def)

lemma last_of_mem: "last_of xs = Some y \<Longrightarrow> Some y \<in> set xs"
  by (induction xs) (auto split: option.splits)

lemma new_file_fields:
  "Status (new_file l) = FileStatusUnset" "IsBinary (new_file l) = False"
  "OldPath (new_file l) = fst (marker_paths l)" "Path (new_file l) = snd (marker_paths l)"
  by (simp_all add: new_file_def marker_paths_def Let_def split: option.splits prod.splits)

lemma file_body_fields:
  "Status (fst (file_body ls cur f)) = Status (fold mark (visible (section_of ls cur)) f)"
  "OldPath (fst (file_body ls cur f)) = OldPath (fold mark (visible (section_of ls cur)) f)"
  "Path (fst (file_body ls cur f)) = Path (fold mark (visible (section_of ls cur)) f)"
  "IsBinary (fst (file_body ls cur f)) = IsBinary (fold mark (visible (section_of ls cur)) f)"
  by (subst file_body_visible, simp)+

lemma Status_file_of:
  "Status (file_of ls c) =
     (case last_of (map status_of_line (visible (section_of ls (Suc c)))) of
        None \<Rightarrow> FileStatusModified | Some s \<Rightarrow> s)"
proof -
  let ?m = "last_of (map status_of_line (visible (section_of ls (Suc c))))"
  let ?g = "fst (file_body ls (Suc c) (new_file (ls ! c)))"
  have "Status ?g = (case ?m of None \<Rightarrow> FileStatusUnset | Some s \<Rightarrow> s)"
    by (simp add: file_body_fields Status_fold_mark new_file_fields cong: option.case_cong)
  moreover have "?m \<noteq> Some FileStatusUnset"
  proof
    assume "?m = Some FileStatusUnset"
    then have "Some FileStatusUnset \<in> set (map status_of_line (visible (section_of ls (Suc c))))"
      by (rule last_of_mem)
    then obtain l where "status_of_line l = Some FileStatusUnset"
      by auto
    then show False
      by (simp add: status_of_line_set)
  qed
  moreover have "Status (file_of ls c) = Status (default_status ?g)"
    by (simp add: file_of_def tally_hunks_eq)
  ultimately show ?thesis
    by (cases ?m) (simp_all add: default_status_def)
qed

lemma OldPath_file_of:
  "OldPath (file_of ls c) =
     (case last_of (map rename_of_line (visible (section_of ls (Suc c)))) of
        None \<Rightarrow> fst (marker_paths (ls ! c)) | Some p \<Rightarrow> p)"
  by (simp add: file_of_def tally_hunks_eq default_status_def file_body_fields
      OldPath_fold_mark new_file_fields cong: option.case_cong)


lemma IsBinary_file_of:
  "IsBinary (file_of ls c) =
     (\<exists>l \<in> set (visible (section_of ls (Suc c))). HasPrefix l ''Binary files'')"
  by (simp add: file_of_def tally_hunks_eq default_status_def file_body_fields
      IsBinary_fold_mark new_file_fields)

subsection \<open>Every section yields a file\<close>

lemma takeWhile_length_le:
  assumes "i < length xs" "\<not> P (xs ! i)"
  shows "length (takeWhile P xs) \<le> i"
proof (rule ccontr)
  assume "\<not> length (takeWhile P xs) \<le> i"
  then have i: "i < length (takeWhile P xs)"
    by simp
  then have "takeWhile P xs ! i = xs ! i"
    by (rule takeWhile_nth)
  moreover from i have "takeWhile P xs ! i \<in> set (takeWhile P xs)"
    by simp
  ultimately show False
    using assms(2) by (auto dest: set_takeWhileD)
qed

lemma section_end_marker:
  assumes "cur \<le> c" "c < length ls" "is_marker (ls ! c)"
  shows "section_end ls cur \<le> c"
proof -
  have "length (takeWhile (\<lambda>l. \<not> is_marker l) (drop cur ls)) \<le> c - cur"
    using assms by (intro takeWhile_length_le) simp_all
  with assms(1) show ?thesis
    by (simp add: section_end_def section_of_def)
qed

lemma parse_loop_keeps: "set fs \<subseteq> set (fst (parse_loop ls cur fs))"
proof (induction cur fs rule: parse_loop_induct [of ls])
  case (stop cur fs)
  then show ?case by (simp add: parse_loop_end)
next
  case (skip cur fs)
  then show ?case by (simp add: parse_loop_skip)
next
  case (entry cur fs)
  then show ?case by (simp add: parse_loop_file)
qed

lemma parse_loop_all:
  "cur \<le> c \<Longrightarrow> c < length ls \<Longrightarrow> is_marker (ls ! c) \<Longrightarrow>
   file_of ls c \<in> set (fst (parse_loop ls cur fs))"
proof (induction cur fs rule: parse_loop_induct [of ls])
  case (stop cur fs)
  then show ?case by simp
next
  case (skip cur fs)
  then have "cur \<noteq> c"
    by auto
  with skip show ?case
    by (simp add: parse_loop_skip)
next
  case (entry cur fs)
  show ?case
  proof (cases "cur = c")
    case True
    then have "file_of ls c \<in> set (fs @ [file_of ls cur])"
      by simp
    then show ?thesis
      using parse_loop_keeps [of "fs @ [file_of ls cur]" ls "section_end ls (Suc cur)"] entry(1,2)
      by (auto simp: parse_loop_file)
  next
    case False
    with entry.prems have "Suc cur \<le> c"
      by simp
    then have "section_end ls (Suc cur) \<le> c"
      using entry.prems by (intro section_end_marker)
    with entry show ?thesis
      by (simp add: parse_loop_file)
  qed
qed

definition section_at :: "string \<Rightarrow> nat \<Rightarrow> FileDiff \<Rightarrow> bool" where
  \<comment> \<open>line \<open>c\<close> of the input is a file-section marker and \<open>f\<close> is what \<^verbatim>\<open>parseFile\<close>
      returns for it\<close>
  "section_at diff c f =
     (c < length (Split diff) \<and> HasPrefix (Split diff ! c) ''diff --git'' \<and>
      fst (parseFile (Split diff) c) = Some f)"

lemma section_at_file_of:
  "section_at diff c f \<Longrightarrow> f = file_of (Split diff) c"
  by (simp add: section_at_def parseFile_eq)

lemma section_at_parse: "section_at diff c f \<Longrightarrow> f \<in> set (fst (parse diff))"
  using parse_loop_all [of 0 c "Split diff" "[]"]
  by (simp add: section_at_def parseFile_eq parse_def is_marker_def)

lemma parse_section_at: "f \<in> set (fst (parse diff)) \<Longrightarrow> \<exists>c. section_at diff c f"
proof -
  assume "f \<in> set (fst (parse diff))"
  then have "f \<in> sections (Split diff)"
    by (rule parse_files)
  then show ?thesis
    unfolding sections_def by (auto simp: section_at_def parseFile_eq is_marker_def)
qed

subsection \<open>The hunks of a section\<close>

lemma file_body_hunks_length: "length (Hunks f) \<le> length (Hunks (fst (file_body ls cur f)))"
proof (induction cur f rule: file_body_induct [of ls])
  case (stop cur f)
  then show ?case by (simp add: file_body_stop)
next
  case (mark cur f)
  then show ?case by (simp add: file_body_mark Hunks_mark)
next
  case (hunk cur f)
  then show ?case by (simp add: file_body_hunk)
qed

lemma file_body_no_header:
  "\<forall>l \<in> set (section_of ls cur). \<not> is_header l \<Longrightarrow> Hunks (fst (file_body ls cur f)) = Hunks f"
proof (induction cur f rule: file_body_induct [of ls])
  case (stop cur f)
  then show ?case by (simp add: file_body_stop)
next
  case (mark cur f)
  then show ?case by (simp add: file_body_mark Hunks_mark section_of_step)
next
  case (hunk cur f)
  then show ?case by (simp add: section_of_step)
qed

lemma file_body_header:
  "\<exists>l \<in> set (section_of ls cur). is_header l \<Longrightarrow> Hunks (fst (file_body ls cur f)) \<noteq> []"
proof (induction cur f rule: file_body_induct [of ls])
  case (stop cur f)
  then show ?case by (simp add: section_of_stop)
next
  case (mark cur f)
  then show ?case by (simp add: file_body_mark section_of_step)
next
  case (hunk cur f)
  have "length (Hunks (f\<lparr>Hunks := Hunks f @ [hunk_of ls cur]\<rparr>))
        \<le> length (Hunks (fst (file_body ls cur f)))"
    using hunk(1,2,3) file_body_hunks_length [of "f\<lparr>Hunks := Hunks f @ [hunk_of ls cur]\<rparr>" ls "hunk_end ls cur"]
    by (simp add: file_body_hunk)
  then show ?case
    by auto
qed

lemma Hunks_file_of_empty:
  "(Hunks (file_of ls c) = []) = (\<forall>l \<in> set (section_of ls (Suc c)). \<not> is_header l)"
  using file_body_header [of ls "Suc c" "new_file (ls ! c)"]
    file_body_no_header [of ls "Suc c" "new_file (ls ! c)"]
  by (auto simp: Hunks_file_of Hunks_new_file)

lemma visible_no_header: "\<forall>l \<in> set xs. \<not> is_header l \<Longrightarrow> visible xs = xs"
  by (induction xs) simp_all

subsection \<open>Binary files\<close>

text \<open>
  C3. For the file of every section: \<^verbatim>\<open>IsBinary\<close> is true exactly when a line that
  begins with \<^verbatim>\<open>Binary files\<close> stands in the section outside its hunks, whatever other
  markers the section holds, and the hunk sequence is empty exactly when no line of
  the section begins with \<^verbatim>\<open>@@\<close> and matches the hunk-header pattern. So a section
  with a \<^verbatim>\<open>Binary files\<close> line and no hunk header yields \<^verbatim>\<open>IsBinary = true\<close> and no hunks.
\<close>

theorem binary_section:
  assumes "section_at diff c f"
  shows "f \<in> set (fst (parse diff)) \<and>
         IsBinary f =
           (\<exists>l \<in> set (visible (section_of (Split diff) (Suc c))). HasPrefix l ''Binary files'') \<and>
         (Hunks f = []) = (\<forall>l \<in> set (section_of (Split diff) (Suc c)). \<not> is_header l) \<and>
         ((\<exists>l \<in> set (section_of (Split diff) (Suc c)). HasPrefix l ''Binary files'') \<and>
          (\<forall>l \<in> set (section_of (Split diff) (Suc c)). \<not> is_header l) \<longrightarrow>
            IsBinary f \<and> Hunks f = [])"
proof -
  let ?sec = "section_of (Split diff) (Suc c)"
  from assms have f: "f = file_of (Split diff) c"
    by (rule section_at_file_of)
  have b: "IsBinary f = (\<exists>l \<in> set (visible ?sec). HasPrefix l ''Binary files'')"
    unfolding f by (rule IsBinary_file_of)
  have h: "(Hunks f = []) = (\<forall>l \<in> set ?sec. \<not> is_header l)"
    unfolding f by (rule Hunks_file_of_empty)
  have "IsBinary f \<and> Hunks f = []"
    if "\<exists>l \<in> set ?sec. HasPrefix l ''Binary files''" "\<forall>l \<in> set ?sec. \<not> is_header l"
    using that b h visible_no_header [of ?sec] by simp
  with b h section_at_parse [OF assms] show ?thesis
    by blast
qed

definition binary_diff :: string where
  "binary_diff =
     ''diff --git a/img.png b/img.png'' @ LF @ ''new file mode 100644'' @ LF @
     ''Binary files /dev/null and b/img.png differ''"

definition binary_file :: FileDiff where
  "binary_file =
     \<lparr>Path = ''img.png'', OldPath = ''img.png'', Status = FileStatusAdded, Additions = 0,
      Deletions = 0, IsBinary = True, Hunks = []\<rparr>"

lemma Split_binary_diff:
  "Split binary_diff =
     [''diff --git a/img.png b/img.png'', ''new file mode 100644'',
      ''Binary files /dev/null and b/img.png differ'']"
  by (simp add: binary_diff_def LF_def)

lemma section_at_binary: "section_at binary_diff 0 binary_file"
  by (simp add: section_at_def Split_binary_diff parseFile_eq binary_file_def parser_eval)

theorem binary_section_witness:
  "section_at binary_diff 0 binary_file \<and>
   section_of (Split binary_diff) (Suc 0) =
     [''new file mode 100644'', ''Binary files /dev/null and b/img.png differ''] \<and>
   HasPrefix ''Binary files /dev/null and b/img.png differ'' ''Binary files'' \<and>
   \<not> is_header ''new file mode 100644'' \<and>
   \<not> is_header ''Binary files /dev/null and b/img.png differ'' \<and>
   binary_file \<in> set (fst (parse binary_diff)) \<and>
   IsBinary binary_file \<and> Hunks binary_file = [] \<and> Status binary_file = FileStatusAdded"
proof -
  have s: "section_of (Split binary_diff) (Suc 0) =
     [''new file mode 100644'', ''Binary files /dev/null and b/img.png differ'']"
    by (simp add: Split_binary_diff section_of_def is_marker_def HasPrefix_def)
  have h: "HasPrefix ''Binary files /dev/null and b/img.png differ'' ''Binary files''"
    "\<not> is_header ''new file mode 100644''"
    "\<not> is_header ''Binary files /dev/null and b/img.png differ''"
    by (simp_all add: is_header_def HasPrefix_def)
  from binary_section [OF section_at_binary] s h section_at_binary show ?thesis
    by (simp add: binary_file_def)
qed

definition binary_hunk_diff :: string where
  "binary_hunk_diff =
     ''diff --git a/x b/x'' @ LF @ ''Binary files a/x and b/x differ'' @ LF @
     ''@@ -1 +1 @@'' @ LF @ ''+a''"

definition binary_hunk_file :: FileDiff where
  "binary_hunk_file =
     \<lparr>Path = ''x'', OldPath = ''x'', Status = FileStatusModified, Additions = 1,
      Deletions = 0, IsBinary = True,
      Hunks =
        [\<lparr>OldStart = 1, OldLines = 1, NewStart = 1, NewLines = 1, Header = ''@@ -1 +1 @@'',
          Lines =
            [\<lparr>Type = LineTypeAdded, OldNumber = None, NewNumber = Some 1, Content = ''a''\<rparr>]\<rparr>]\<rparr>"

definition hunk_binary_diff :: string where
  "hunk_binary_diff =
     ''diff --git a/x b/x'' @ LF @ ''@@ -1 +1 @@'' @ LF @ ''+a'' @ LF @
     ''Binary files a/x and b/x differ''"

definition hunk_binary_file :: FileDiff where
  "hunk_binary_file = binary_hunk_file\<lparr>IsBinary := False\<rparr>"

lemma Split_binary_hunk_diff:
  "Split binary_hunk_diff =
     [''diff --git a/x b/x'', ''Binary files a/x and b/x differ'', ''@@ -1 +1 @@'', ''+a'']"
  by (simp add: binary_hunk_diff_def LF_def)

lemma Split_hunk_binary_diff:
  "Split hunk_binary_diff =
     [''diff --git a/x b/x'', ''@@ -1 +1 @@'', ''+a'', ''Binary files a/x and b/x differ'']"
  by (simp add: hunk_binary_diff_def LF_def)

lemma parse_binary_hunk_diff: "parse binary_hunk_diff = ([binary_hunk_file], None)"
  by (simp add: parse_def Split_binary_hunk_diff binary_hunk_file_def parser_eval)

lemma parse_hunk_binary_diff: "parse hunk_binary_diff = ([hunk_binary_file], None)"
  by (simp add: parse_def Split_hunk_binary_diff hunk_binary_file_def binary_hunk_file_def
      parser_eval)

theorem binary_section_counterexample:
  "fst (parse binary_hunk_diff) = [binary_hunk_file] \<and>
   HasPrefix (Split binary_hunk_diff ! 1) ''Binary files'' \<and>
   IsBinary binary_hunk_file \<and>
   Hunks binary_hunk_file \<noteq> [] \<and>
   fst (parse hunk_binary_diff) = [hunk_binary_file] \<and>
   HasPrefix (Split hunk_binary_diff ! 3) ''Binary files'' \<and>
   \<not> IsBinary hunk_binary_file \<and>
   Hunks hunk_binary_file \<noteq> []"
  by (simp add: parse_binary_hunk_diff parse_hunk_binary_diff Split_binary_hunk_diff
      Split_hunk_binary_diff hunk_binary_file_def binary_hunk_file_def HasPrefix_def)

subsection \<open>Status markers\<close>

lemma rename_of_line_text: "rename_of_line (''rename from '' @ p) = Some p"
  by (simp add: rename_of_line_def HasPrefix_def TrimPrefix_def)

text \<open>
  C10. For the file of every section, with the lines the section loop reads (those
  outside the hunks) taken in order: the status is the one assigned by the last line
  among them that begins with \<^verbatim>\<open>new file\<close> (Added), \<^verbatim>\<open>deleted file\<close> (Deleted) or
  \<^verbatim>\<open>rename from\<close> (Renamed), and Modified when there is none; the old path is
  \<^verbatim>\<open>TrimPrefix(line, "rename from ")\<close> of the last line among them that begins with
  \<^verbatim>\<open>rename from\<close>, which for a line \<^verbatim>\<open>rename from <p>\<close> is \<^verbatim>\<open><p>\<close>, and the path taken from
  the marker line when there is none. In a section without hunk headers every line
  is read by the section loop.
\<close>

theorem last_marker_wins:
  assumes "section_at diff c f"
  shows "f \<in> set (fst (parse diff)) \<and>
         Status f =
           (case last_of (map status_of_line (visible (section_of (Split diff) (Suc c)))) of
              None \<Rightarrow> FileStatusModified | Some s \<Rightarrow> s) \<and>
         OldPath f =
           (case last_of (map rename_of_line (visible (section_of (Split diff) (Suc c)))) of
              None \<Rightarrow> fst (marker_paths (Split diff ! c)) | Some p \<Rightarrow> p) \<and>
         rename_of_line (''rename from '' @ p) = Some p \<and>
         ((\<forall>l \<in> set (section_of (Split diff) (Suc c)). \<not> is_header l) \<longrightarrow>
            visible (section_of (Split diff) (Suc c)) = section_of (Split diff) (Suc c))"
proof -
  let ?sec = "section_of (Split diff) (Suc c)"
  from assms have f: "f = file_of (Split diff) c"
    by (rule section_at_file_of)
  have a: "f \<in> set (fst (parse diff))"
    using assms by (rule section_at_parse)
  have b: "Status f =
      (case last_of (map status_of_line (visible ?sec)) of
         None \<Rightarrow> FileStatusModified | Some s \<Rightarrow> s)"
    unfolding f by (rule Status_file_of)
  have c: "OldPath f =
      (case last_of (map rename_of_line (visible ?sec)) of
         None \<Rightarrow> fst (marker_paths (Split diff ! c)) | Some p \<Rightarrow> p)"
    unfolding f by (rule OldPath_file_of)
  have d: "rename_of_line (''rename from '' @ p) = Some p"
    by (rule rename_of_line_text)
  have e: "(\<forall>l \<in> set ?sec. \<not> is_header l) \<longrightarrow> visible ?sec = ?sec"
    by (simp add: visible_no_header)
  show ?thesis
    by (intro conjI a b c d e)
qed

definition markers_diff :: string where
  "markers_diff =
     ''diff --git a/new.txt b/new.txt'' @ LF @ ''new file mode 100644'' @ LF @
     ''deleted file mode 100644'' @ LF @ ''rename from old.txt''"

definition markers_file :: FileDiff where
  "markers_file =
     \<lparr>Path = ''new.txt'', OldPath = ''old.txt'', Status = FileStatusRenamed, Additions = 0,
      Deletions = 0, IsBinary = False, Hunks = []\<rparr>"

lemma Split_markers_diff:
  "Split markers_diff =
     [''diff --git a/new.txt b/new.txt'', ''new file mode 100644'',
      ''deleted file mode 100644'', ''rename from old.txt'']"
  by (simp add: markers_diff_def LF_def)

lemma section_at_markers: "section_at markers_diff 0 markers_file"
  by (simp add: section_at_def Split_markers_diff parseFile_eq markers_file_def parser_eval)

theorem last_marker_wins_witness:
  "section_at markers_diff 0 markers_file \<and>
   section_of (Split markers_diff) (Suc 0) =
     [''new file mode 100644'', ''deleted file mode 100644'', ''rename from old.txt''] \<and>
   \<not> is_header ''new file mode 100644'' \<and>
   \<not> is_header ''deleted file mode 100644'' \<and>
   \<not> is_header ''rename from old.txt'' \<and>
   map status_of_line (section_of (Split markers_diff) (Suc 0)) =
     [Some FileStatusAdded, Some FileStatusDeleted, Some FileStatusRenamed] \<and>
   map rename_of_line (section_of (Split markers_diff) (Suc 0)) = [None, None, Some ''old.txt''] \<and>
   fst (marker_paths (Split markers_diff ! 0)) = ''new.txt'' \<and>
   markers_file \<in> set (fst (parse markers_diff)) \<and>
   Status markers_file = FileStatusRenamed \<and>
   OldPath markers_file = ''old.txt''"
proof -
  have s: "section_of (Split markers_diff) (Suc 0) =
     [''new file mode 100644'', ''deleted file mode 100644'', ''rename from old.txt'']"
    by (simp add: Split_markers_diff section_of_def is_marker_def HasPrefix_def)
  have h: "\<not> is_header ''new file mode 100644''" "\<not> is_header ''deleted file mode 100644''"
    "\<not> is_header ''rename from old.txt''"
    by (simp_all add: is_header_def HasPrefix_def)
  have m: "map status_of_line (section_of (Split markers_diff) (Suc 0)) =
     [Some FileStatusAdded, Some FileStatusDeleted, Some FileStatusRenamed]"
    "map rename_of_line (section_of (Split markers_diff) (Suc 0)) = [None, None, Some ''old.txt'']"
    by (simp_all add: s status_of_line_def rename_of_line_def HasPrefix_def TrimPrefix_def)
  have p: "fst (marker_paths (Split markers_diff ! 0)) = ''new.txt''"
    by (simp add: Split_markers_diff marker_paths_def match_paths_at_def is_lower_def)
  from last_marker_wins [OF section_at_markers] section_at_markers s h m p show ?thesis
    by (simp add: markers_file_def)
qed

subsection \<open>What the two patterns match\<close>


lemma strip_literal_Some: "strip_literal p s = Some r \<Longrightarrow> s = p @ r"
  by (induction p s rule: strip_literal.induct) (auto split: if_splits)

definition sep_here :: "string \<Rightarrow> string option" where
  \<comment> \<open>the text after a separator \<^verbatim>\<open> [a-z]/\<close> that starts the string and leaves some text\<close>
  "sep_here xs =
     (case xs of
        s # c # sl # y # ys \<Rightarrow>
          if s = CHR '' '' \<and> is_lower c \<and> sl = CHR ''/'' then Some (y # ys) else None
      | _ \<Rightarrow> None)"












definition digits :: "string \<Rightarrow> bool" where
  \<comment> \<open>a non-empty string of ASCII digits\<close>
  "digits s = (s \<noteq> [] \<and> list_all is_digit s)"

fun count_text :: "string option \<Rightarrow> string" where
  \<comment> \<open>the optional count of a header as it is written: nothing, or a comma and digits\<close>
  "count_text None = []"
| "count_text (Some m) = CHR '','' # m"

definition hunk_pattern :: "string \<Rightarrow> bool" where
  \<comment> \<open>some part of the line matches \<^verbatim>\<open>@@ -(\d+)(?:,(\d+))? \+(\d+)(?:,(\d+))? @@(.*)\<close>\<close>
  "hunk_pattern l =
     (\<exists>pre a ob c nb t.
        l = pre @ ''@@ -'' @ a @ count_text ob @ '' +'' @ c @ count_text nb @ '' @@'' @ t \<and>
        digits a \<and> digits c \<and>
        (case ob of None \<Rightarrow> True | Some b \<Rightarrow> digits b) \<and>
        (case nb of None \<Rightarrow> True | Some d \<Rightarrow> digits d))"

definition group_opt :: "string \<Rightarrow> string option" where
  \<comment> \<open>an optional group as Go reports it: the empty string when it took no part\<close>
  "group_opt m = (if m = [] then None else Some m)"

lemma span_digits:
  assumes "list_all is_digit a" "r = [] \<or> \<not> is_digit (hd r)"
  shows "takeWhile is_digit (a @ r) = a" "dropWhile is_digit (a @ r) = r"
proof -
  from assms(2) have "takeWhile is_digit r = []" "dropWhile is_digit r = r"
    by (cases r; auto)+
  with assms(1) show "takeWhile is_digit (a @ r) = a" "dropWhile is_digit (a @ r) = r"
    by (simp_all add: takeWhile_append2 dropWhile_append2 list_all_iff)
qed

lemma opt_count_text:
  assumes "case ob of None \<Rightarrow> True | Some b \<Rightarrow> digits b"
  shows "opt_count (count_text ob @ CHR '' '' # r) =
           ((case ob of None \<Rightarrow> [] | Some b \<Rightarrow> b), CHR '' '' # r)"
proof (cases ob)
  case None
  then show ?thesis by (simp add: opt_count_def)
next
  case (Some b)
  with assms have b: "b \<noteq> []" "list_all is_digit b"
    by (simp_all add: digits_def)
  have "\<not> is_digit CHR '' ''"
    by (simp add: is_digit_def)
  then have "takeWhile is_digit (b @ CHR '' '' # r) = b" "dropWhile is_digit (b @ CHR '' '' # r) = CHR '' '' # r"
    using b(2) by (simp_all add: span_digits)
  with Some b(1) show ?thesis
    by (simp add: opt_count_def)
qed

lemma match_hunk_at_shape:
  assumes "digits a" "digits c"
    "case ob of None \<Rightarrow> True | Some b \<Rightarrow> digits b"
    "case nb of None \<Rightarrow> True | Some d \<Rightarrow> digits d"
  shows "match_hunk_at (''@@ -'' @ a @ count_text ob @ '' +'' @ c @ count_text nb @ '' @@'' @ t) =
           Some (a, (case ob of None \<Rightarrow> [] | Some b \<Rightarrow> b), c,
                 (case nb of None \<Rightarrow> [] | Some d \<Rightarrow> d), t)"
proof -
  let ?r5 = "count_text nb @ '' @@'' @ t"
  let ?r2 = "count_text ob @ '' +'' @ c @ ?r5"
  have nd: "\<not> is_digit CHR '' ''" "\<not> is_digit CHR '',''"
    by (simp_all add: is_digit_def)
  have h2: "?r2 = [] \<or> \<not> is_digit (hd ?r2)"
    using nd by (cases ob) simp_all
  have h5: "?r5 = [] \<or> \<not> is_digit (hd ?r5)"
    using nd by (cases nb) simp_all
  from assms(1) have a: "a \<noteq> []" "list_all is_digit a"
    by (simp_all add: digits_def)
  from assms(2) have c: "c \<noteq> []" "list_all is_digit c"
    by (simp_all add: digits_def)
  have s1: "takeWhile is_digit (a @ ?r2) = a" "dropWhile is_digit (a @ ?r2) = ?r2"
    using a(2) h2 by (rule span_digits)+
  have s2: "opt_count ?r2 = ((case ob of None \<Rightarrow> [] | Some b \<Rightarrow> b), '' +'' @ c @ ?r5)"
    using opt_count_text [OF assms(3), of "''+'' @ c @ ?r5"] by simp
  have s3: "takeWhile is_digit (c @ ?r5) = c" "dropWhile is_digit (c @ ?r5) = ?r5"
    using c(2) h5 by (rule span_digits)+
  have s4: "opt_count ?r5 = ((case nb of None \<Rightarrow> [] | Some d \<Rightarrow> d), '' @@'' @ t)"
    using opt_count_text [OF assms(4), of "''@@'' @ t"] by simp
  have "strip_literal ''@@ -'' (''@@ -'' @ a @ ?r2) = Some (a @ ?r2)"
    by simp
  moreover have "strip_literal '' +'' ('' +'' @ c @ ?r5) = Some (c @ ?r5)"
    by simp
  moreover have "strip_literal '' @@'' ('' @@'' @ t) = Some t"
    by simp
  ultimately show ?thesis
    unfolding match_hunk_at_def using s1 s2 s3 s4 a(1) c(1)
    by (simp only: option.case prod.case if_False append_assoc)
qed

lemma match_hunk_shape:
  assumes "digits a" "digits c"
    "case ob of None \<Rightarrow> True | Some b \<Rightarrow> digits b"
    "case nb of None \<Rightarrow> True | Some d \<Rightarrow> digits d"
  shows "match_hunk (''@@ -'' @ a @ count_text ob @ '' +'' @ c @ count_text nb @ '' @@'' @ t) =
           Some (a, (case ob of None \<Rightarrow> [] | Some b \<Rightarrow> b), c,
                 (case nb of None \<Rightarrow> [] | Some d \<Rightarrow> d), t)"
  using match_hunk_at_shape [OF assms, of t] by simp

lemma digits_takeWhile: "takeWhile is_digit r \<noteq> [] \<Longrightarrow> digits (takeWhile is_digit r)"
  by (auto simp: digits_def list_all_iff dest: set_takeWhileD)

lemma opt_count_sound:
  assumes "opt_count s = (m, r)"
  shows "s = count_text (group_opt m) @ r \<and> (case group_opt m of None \<Rightarrow> True | Some b \<Rightarrow> digits b)"
proof (cases s)
  case Nil
  with assms show ?thesis
    by (simp add: opt_count_def group_opt_def)
next
  case (Cons c r')
  show ?thesis
  proof (cases "c = CHR '','' \<and> takeWhile is_digit r' \<noteq> []")
    case True
    with assms Cons have m: "m = takeWhile is_digit r'" "r = dropWhile is_digit r'"
      by (simp_all add: opt_count_def)
    with True have d: "digits m"
      by (simp add: digits_takeWhile)
    then have n: "m \<noteq> []"
      by (simp add: digits_def)
    have "r' = m @ r"
      by (simp only: m takeWhile_dropWhile_id)
    with True Cons have "s = CHR '','' # m @ r"
      by simp
    with d n show ?thesis
      by (simp add: group_opt_def)
  next
    case False
    with assms Cons have "m = []" "r = s"
      by (auto simp: opt_count_def)
    then show ?thesis
      by (simp add: group_opt_def)
  qed
qed

lemma match_hunk_at_sound:
  assumes "match_hunk_at s = Some (m1, m2, m3, m4, m5)"
  shows "s = ''@@ -'' @ m1 @ count_text (group_opt m2) @ '' +'' @ m3 @ count_text (group_opt m4) @
               '' @@'' @ m5 \<and>
         digits m1 \<and> digits m3 \<and>
         (case group_opt m2 of None \<Rightarrow> True | Some b \<Rightarrow> digits b) \<and>
         (case group_opt m4 of None \<Rightarrow> True | Some d \<Rightarrow> digits d)"
proof -
  from assms obtain r1 where r1: "strip_literal ''@@ -'' s = Some r1"
    by (auto simp: match_hunk_at_def split: option.splits)
  from assms r1 have n1: "takeWhile is_digit r1 \<noteq> []"
    by (auto simp: match_hunk_at_def split: if_splits)
  obtain g2 r3 where o2: "opt_count (dropWhile is_digit r1) = (g2, r3)"
    by (cases "opt_count (dropWhile is_digit r1)")
  from assms r1 n1 o2 obtain r4 where r4: "strip_literal '' +'' r3 = Some r4"
    by (auto simp: match_hunk_at_def split: option.splits)
  from assms r1 n1 o2 r4 have n3: "takeWhile is_digit r4 \<noteq> []"
    by (auto simp: match_hunk_at_def split: if_splits)
  obtain g4 r6 where o4: "opt_count (dropWhile is_digit r4) = (g4, r6)"
    by (cases "opt_count (dropWhile is_digit r4)")
  from assms r1 n1 o2 r4 n3 o4 obtain r7 where r7: "strip_literal '' @@'' r6 = Some r7"
    by (auto simp: match_hunk_at_def split: option.splits)
  from assms r1 n1 o2 r4 n3 o4 r7
  have g: "m1 = takeWhile is_digit r1" "m2 = g2" "m3 = takeWhile is_digit r4" "m4 = g4" "m5 = r7"
    by (simp_all add: match_hunk_at_def)
  have e1: "s = ''@@ -'' @ r1"
    using r1 by (rule strip_literal_Some)
  have e2: "r1 = m1 @ dropWhile is_digit r1"
    by (simp only: g takeWhile_dropWhile_id)
  have e3: "dropWhile is_digit r1 = count_text (group_opt m2) @ r3"
    and d2: "case group_opt m2 of None \<Rightarrow> True | Some b \<Rightarrow> digits b"
    using opt_count_sound [OF o2] by (simp_all add: g)
  have e4: "r3 = '' +'' @ r4"
    using r4 by (rule strip_literal_Some)
  have e5: "r4 = m3 @ dropWhile is_digit r4"
    by (simp only: g takeWhile_dropWhile_id)
  have e6: "dropWhile is_digit r4 = count_text (group_opt m4) @ r6"
    and d4: "case group_opt m4 of None \<Rightarrow> True | Some d \<Rightarrow> digits d"
    using opt_count_sound [OF o4] by (simp_all add: g)
  have e7: "r6 = '' @@'' @ m5"
    using strip_literal_Some [OF r7] by (simp add: g)
  have "s = ''@@ -'' @ m1 @ count_text (group_opt m2) @ '' +'' @ m3 @ count_text (group_opt m4) @
               '' @@'' @ m5"
    by (subst e1, subst e2, subst e3, subst e4, subst e5, subst e6, subst e7) simp
  moreover have "digits m1" "digits m3"
    using n1 n3 by (simp_all add: g digits_takeWhile)
  ultimately show ?thesis
    using d2 d4 by blast
qed

lemma match_hunk_sound:
  "match_hunk l = Some (m1, m2, m3, m4, m5) \<Longrightarrow>
   \<exists>pre. l = pre @ ''@@ -'' @ m1 @ count_text (group_opt m2) @ '' +'' @ m3 @
                count_text (group_opt m4) @ '' @@'' @ m5 \<and>
     digits m1 \<and> digits m3 \<and>
     (case group_opt m2 of None \<Rightarrow> True | Some b \<Rightarrow> digits b) \<and>
     (case group_opt m4 of None \<Rightarrow> True | Some d \<Rightarrow> digits d)"
proof (induction l)
  case Nil
  then show ?case
    by (simp add: match_hunk_at_def)
next
  case (Cons x xs)
  let ?shape = "''@@ -'' @ m1 @ count_text (group_opt m2) @ '' +'' @ m3 @
                count_text (group_opt m4) @ '' @@'' @ m5"
  show ?case
  proof (cases "match_hunk_at (x # xs)")
    case None
    with Cons.prems have "match_hunk xs = Some (m1, m2, m3, m4, m5)"
      by simp
    from Cons.IH [OF this] obtain pre where p: "xs = pre @ ?shape" and
      d: "digits m1 \<and> digits m3 \<and>
     (case group_opt m2 of None \<Rightarrow> True | Some b \<Rightarrow> digits b) \<and>
     (case group_opt m4 of None \<Rightarrow> True | Some d \<Rightarrow> digits d)"
      by blast
    from p have "x # xs = (x # pre) @ ?shape"
      by simp
    with d show ?thesis
      by blast
  next
    case (Some r)
    with Cons.prems have "match_hunk_at (x # xs) = Some (m1, m2, m3, m4, m5)"
      by simp
    from match_hunk_at_sound [OF this] have "x # xs = [] @ ?shape" and
      d: "digits m1 \<and> digits m3 \<and>
     (case group_opt m2 of None \<Rightarrow> True | Some b \<Rightarrow> digits b) \<and>
     (case group_opt m4 of None \<Rightarrow> True | Some d \<Rightarrow> digits d)"
      by simp_all
    then show ?thesis
      by blast
  qed
qed

lemma match_hunk_prefix:
  "match_hunk_at s \<noteq> None \<Longrightarrow> s \<noteq> [] \<Longrightarrow> match_hunk (pre @ s) \<noteq> None"
proof (induction pre)
  case Nil
  then show ?case
    by (cases s) (auto split: option.splits)
next
  case (Cons p pre)
  then show ?case
    by (auto split: option.splits)
qed

lemma match_hunk_pattern: "(match_hunk l \<noteq> None) = hunk_pattern l"
proof
  assume "match_hunk l \<noteq> None"
  then obtain m1 m2 m3 m4 m5 where "match_hunk l = Some (m1, m2, m3, m4, m5)"
    by auto
  from match_hunk_sound [OF this] show "hunk_pattern l"
    unfolding hunk_pattern_def by blast
next
  assume "hunk_pattern l"
  then obtain pre a ob c nb t where
    l: "l = pre @ ''@@ -'' @ a @ count_text ob @ '' +'' @ c @ count_text nb @ '' @@'' @ t"
    and d: "digits a" "digits c" "case ob of None \<Rightarrow> True | Some b \<Rightarrow> digits b"
      "case nb of None \<Rightarrow> True | Some d \<Rightarrow> digits d"
    unfolding hunk_pattern_def by blast
  have "match_hunk_at (''@@ -'' @ a @ count_text ob @ '' +'' @ c @ count_text nb @ '' @@'' @ t) \<noteq> None"
    using match_hunk_at_shape [OF d, of t] by simp
  then show "match_hunk l \<noteq> None"
    unfolding l by (rule match_hunk_prefix) simp
qed


lemma hunk_pattern_cases:
  "hunk_pattern l \<Longrightarrow> match_hunk l \<noteq> None"
  "\<not> hunk_pattern l \<Longrightarrow> match_hunk l = None"
  "match_hunk l \<noteq> None \<Longrightarrow> hunk_pattern l"
  "match_hunk l = None \<Longrightarrow> \<not> hunk_pattern l"
  using match_hunk_pattern [of l] by blast+

subsection \<open>The paths of the marker line\<close>

definition has_sep :: "string \<Rightarrow> bool" where
  \<comment> \<open>the text holds a separator \<^verbatim>\<open> [a-z]/\<close> that is followed by at least one more byte\<close>
  "has_sep s = (\<exists>n1 c n2. s = n1 @ CHR '' '' # c # CHR ''/'' # n2 \<and> is_lower c \<and> n2 \<noteq> [])"

lemma has_sep_Nil: "\<not> has_sep []"
  by (simp add: has_sep_def)

lemma sep_here_iff:
  "(sep_here xs \<noteq> None) = (\<exists>c n2. xs = CHR '' '' # c # CHR ''/'' # n2 \<and> is_lower c \<and> n2 \<noteq> [])"
  by (auto simp: sep_here_def split: list.splits)

lemma has_sep_Cons: "has_sep (x # xs) = (sep_here (x # xs) \<noteq> None \<or> has_sep xs)"
proof
  assume "has_sep (x # xs)"
  then obtain n1 c n2 where
    e: "x # xs = n1 @ CHR '' '' # c # CHR ''/'' # n2" and c: "is_lower c" "n2 \<noteq> []"
    unfolding has_sep_def by blast
  show "sep_here (x # xs) \<noteq> None \<or> has_sep xs"
  proof (cases n1)
    case Nil
    with e c have "sep_here (x # xs) \<noteq> None"
      unfolding sep_here_iff by auto
    then show ?thesis ..
  next
    case (Cons y ys)
    with e have "xs = ys @ CHR '' '' # c # CHR ''/'' # n2"
      by simp
    with c have "has_sep xs"
      unfolding has_sep_def by blast
    then show ?thesis ..
  qed
next
  assume "sep_here (x # xs) \<noteq> None \<or> has_sep xs"
  then show "has_sep (x # xs)"
  proof
    assume "sep_here (x # xs) \<noteq> None"
    then obtain c n2 where "x # xs = [] @ CHR '' '' # c # CHR ''/'' # n2" "is_lower c" "n2 \<noteq> []"
      unfolding sep_here_iff by auto
    then show ?thesis
      unfolding has_sep_def by blast
  next
    assume "has_sep xs"
    then obtain n1 c n2 where
      "xs = n1 @ CHR '' '' # c # CHR ''/'' # n2" "is_lower c" "n2 \<noteq> []"
      unfolding has_sep_def by blast
    then have "x # xs = (x # n1) @ CHR '' '' # c # CHR ''/'' # n2" "is_lower c" "n2 \<noteq> []"
      by simp_all
    then show ?thesis
      unfolding has_sep_def by blast
  qed
qed

lemma no_space_no_sep: "CHR '' '' \<notin> set s \<Longrightarrow> \<not> has_sep s"
  by (auto simp: has_sep_def)






























text \<open>
  A new path that holds a separator itself is outside the statement above. The first
  group of the pattern is greedy, so the marker line is split at its last separator:
  for a file \<^verbatim>\<open>plan b/x.txt\<close> git writes the marker line below, and the paths stored are
  not the path of the file.
\<close>

definition split_diff :: string where
  "split_diff = ''diff --git a/plan b/x.txt b/plan b/x.txt''"

lemma parse_split_diff:
  "parse split_diff =
     ([\<lparr>Path = ''x.txt'', OldPath = ''plan b/x.txt b/plan'', Status = FileStatusModified,
        Additions = 0, Deletions = 0, IsBinary = False, Hunks = []\<rparr>], None)"
  "has_sep ''plan b/x.txt''"
  by (simp_all add: parse_def split_diff_def parser_eval has_sep_Cons has_sep_Nil sep_here_def)

subsection \<open>Forward progress\<close>




















subsection \<open>The counts of a hunk header\<close>

fun count_value :: "string option \<Rightarrow> int" where
  \<comment> \<open>the count the header declares: 1 when omitted, otherwise the number written, and
      the largest \<^verbatim>\<open>int\<close> when the number written is beyond it\<close>
  "count_value None = 1"
| "count_value (Some m) = int (min (decimal m) MaxInt)"

lemma sint_Atoi: "sint (Atoi m) = int (min (decimal m) MaxInt)"
  by (simp add: Atoi_def sint_word_of_nat)

lemma hunk_of_counts:
  assumes "match_hunk (ls ! cur) = Some (m1, m2, m3, m4, m5)"
  shows "OldLines (hunk_of ls cur) = (if m2 = [] then 1 else Atoi m2)"
    "NewLines (hunk_of ls cur) = (if m4 = [] then 1 else Atoi m4)"
  using assms by (simp_all add: hunk_of_def new_hunk_def)

lemma count_value_group_opt:
  "sint (if m = [] then 1 else Atoi m) = count_value (group_opt m)"
  by (simp add: group_opt_def sint_Atoi)

text \<open>
  C7. For a line of which some part matches the hunk-header pattern, \<^verbatim>\<open>parseHunk\<close>
  returns a hunk, and the line has a part \<^verbatim>\<open>@@ -<a>[,<b>] +<c>[,<d>] @@<t>\<close> with digit
  strings \<^verbatim>\<open><a>\<close>, \<^verbatim>\<open><b>\<close>, \<^verbatim>\<open><c>\<close>, \<^verbatim>\<open><d>\<close> (the part the matcher finds) for which:
  \<^verbatim>\<open>OldLines\<close> is exactly 1 when \<^verbatim>\<open>,<b>\<close> is omitted and \<^verbatim>\<open>NewLines\<close> exactly 1 when
  \<^verbatim>\<open>,<d>\<close> is omitted; a count that is present is stored as the number written when
  that is at most the largest \<^verbatim>\<open>int\<close>, and as the largest \<^verbatim>\<open>int\<close> when it is larger.
  For a line that is such a header from its first byte on, the counts are those of
  the line itself.
\<close>

theorem header_counts:
  assumes "cur < length ls"
  shows "(hunk_pattern (ls ! cur) \<longrightarrow>
            (\<exists>h cur' pre a ob c nb t.
               parseHunk ls cur = (Some h, cur') \<and>
               ls ! cur = pre @ ''@@ -'' @ a @ count_text ob @ '' +'' @ c @ count_text nb @ '' @@'' @ t \<and>
               digits a \<and> digits c \<and>
               (case ob of None \<Rightarrow> True | Some b \<Rightarrow> digits b) \<and>
               (case nb of None \<Rightarrow> True | Some d \<Rightarrow> digits d) \<and>
               sint (OldLines h) = count_value ob \<and>
               sint (NewLines h) = count_value nb \<and>
               (ob = None \<longrightarrow> OldLines h = 1) \<and>
               (nb = None \<longrightarrow> NewLines h = 1))) \<and>
         (ls ! cur = ''@@ -'' @ a @ count_text ob @ '' +'' @ c @ count_text nb @ '' @@'' @ t \<and>
          digits a \<and> digits c \<and>
          (case ob of None \<Rightarrow> True | Some b \<Rightarrow> digits b) \<and>
          (case nb of None \<Rightarrow> True | Some d \<Rightarrow> digits d) \<longrightarrow>
            (\<exists>h cur'. parseHunk ls cur = (Some h, cur') \<and>
               sint (OldLines h) = count_value ob \<and>
               sint (NewLines h) = count_value nb \<and>
               (ob = None \<longrightarrow> OldLines h = 1) \<and>
               (nb = None \<longrightarrow> NewLines h = 1)))"
proof (intro conjI impI)
  assume "hunk_pattern (ls ! cur)"
  then have n: "match_hunk (ls ! cur) \<noteq> None"
    by (rule hunk_pattern_cases)
  then obtain m1 m2 m3 m4 m5 where m: "match_hunk (ls ! cur) = Some (m1, m2, m3, m4, m5)"
    by auto
  from n have p: "parseHunk ls cur = (Some (hunk_of ls cur), hunk_end ls cur)"
    by (rule parseHunk_Some)
  from match_hunk_sound [OF m] obtain pre where
    e: "ls ! cur = pre @ ''@@ -'' @ m1 @ count_text (group_opt m2) @ '' +'' @ m3 @
                count_text (group_opt m4) @ '' @@'' @ m5"
    and d: "digits m1" "digits m3"
      "case group_opt m2 of None \<Rightarrow> True | Some b \<Rightarrow> digits b"
      "case group_opt m4 of None \<Rightarrow> True | Some d \<Rightarrow> digits d"
    by blast
  have o: "sint (OldLines (hunk_of ls cur)) = count_value (group_opt m2)"
    "sint (NewLines (hunk_of ls cur)) = count_value (group_opt m4)"
    by (simp_all only: hunk_of_counts [OF m] count_value_group_opt)
  have i: "group_opt m2 = None \<longrightarrow> OldLines (hunk_of ls cur) = 1"
    "group_opt m4 = None \<longrightarrow> NewLines (hunk_of ls cur) = 1"
    by (simp_all add: hunk_of_counts [OF m] group_opt_def)
  show "\<exists>h cur' pre a ob c nb t.
               parseHunk ls cur = (Some h, cur') \<and>
               ls ! cur = pre @ ''@@ -'' @ a @ count_text ob @ '' +'' @ c @ count_text nb @ '' @@'' @ t \<and>
               digits a \<and> digits c \<and>
               (case ob of None \<Rightarrow> True | Some b \<Rightarrow> digits b) \<and>
               (case nb of None \<Rightarrow> True | Some d \<Rightarrow> digits d) \<and>
               sint (OldLines h) = count_value ob \<and>
               sint (NewLines h) = count_value nb \<and>
               (ob = None \<longrightarrow> OldLines h = 1) \<and>
               (nb = None \<longrightarrow> NewLines h = 1)"
    by (rule exI [where x = "hunk_of ls cur"], rule exI [where x = "hunk_end ls cur"],
        rule exI [where x = pre], rule exI [where x = m1], rule exI [where x = "group_opt m2"],
        rule exI [where x = m3], rule exI [where x = "group_opt m4"], rule exI [where x = m5])
      (intro conjI p e d o i)
next
  assume s: "ls ! cur = ''@@ -'' @ a @ count_text ob @ '' +'' @ c @ count_text nb @ '' @@'' @ t \<and>
          digits a \<and> digits c \<and>
          (case ob of None \<Rightarrow> True | Some b \<Rightarrow> digits b) \<and>
          (case nb of None \<Rightarrow> True | Some d \<Rightarrow> digits d)"
  let ?m2 = "case ob of None \<Rightarrow> [] | Some b \<Rightarrow> b"
  let ?m4 = "case nb of None \<Rightarrow> [] | Some d \<Rightarrow> d"
  from s have e: "ls ! cur = ''@@ -'' @ a @ count_text ob @ '' +'' @ c @ count_text nb @ '' @@'' @ t"
    and d: "digits a" "digits c" "case ob of None \<Rightarrow> True | Some b \<Rightarrow> digits b"
      "case nb of None \<Rightarrow> True | Some d \<Rightarrow> digits d"
    by blast+
  have m: "match_hunk (ls ! cur) = Some (a, ?m2, c, ?m4, t)"
    unfolding e using d by (rule match_hunk_shape)
  then have p: "parseHunk ls cur = (Some (hunk_of ls cur), hunk_end ls cur)"
    by (simp add: parseHunk_Some)
  have o: "OldLines (hunk_of ls cur) = (case ob of None \<Rightarrow> 1 | Some b \<Rightarrow> Atoi b)"
    using s hunk_of_counts(1) [OF m] by (cases ob) (simp_all add: digits_def)
  have n: "NewLines (hunk_of ls cur) = (case nb of None \<Rightarrow> 1 | Some d \<Rightarrow> Atoi d)"
    using s hunk_of_counts(2) [OF m] by (cases nb) (simp_all add: digits_def)
  have "sint (OldLines (hunk_of ls cur)) = count_value ob"
    unfolding o by (cases ob) (simp_all add: sint_Atoi)
  moreover have "sint (NewLines (hunk_of ls cur)) = count_value nb"
    unfolding n by (cases nb) (simp_all add: sint_Atoi)
  ultimately
  show "\<exists>h cur'. parseHunk ls cur = (Some h, cur') \<and>
          sint (OldLines h) = count_value ob \<and>
          sint (NewLines h) = count_value nb \<and>
          (ob = None \<longrightarrow> OldLines h = 1) \<and>
          (nb = None \<longrightarrow> NewLines h = 1)"
    using p o n by simp
qed

theorem header_counts_witness:
  "(0::nat) < length [''@@ -7 +9,4 @@ func main()''] \<and>
   [''@@ -7 +9,4 @@ func main()''] ! 0 =
     ''@@ -'' @ ''7'' @ count_text None @ '' +'' @ ''9'' @ count_text (Some ''4'') @ '' @@'' @ '' func main()'' \<and>
   digits ''7'' \<and> digits ''9'' \<and> digits ''4'' \<and>
   hunk_pattern ([''@@ -7 +9,4 @@ func main()''] ! 0) \<and>
   (\<exists>h cur'. parseHunk [''@@ -7 +9,4 @@ func main()''] 0 = (Some h, cur') \<and>
      sint (OldLines h) = 1 \<and> sint (NewLines h) = 4 \<and> OldLines h = 1 \<and> NewLines h = Atoi ''4'')"
proof -
  let ?ls = "[''@@ -7 +9,4 @@ func main()'']"
  have l: "(0::nat) < length ?ls"
    by simp
  have s: "?ls ! 0 =
     ''@@ -'' @ ''7'' @ count_text None @ '' +'' @ ''9'' @ count_text (Some ''4'') @ '' @@'' @ '' func main()''"
    by simp
  have d: "digits ''7''" "digits ''9''" "digits ''4''"
    by (simp_all add: digits_def is_digit_def)
  have "match_hunk (?ls ! 0) \<noteq> None"
    by (simp add: match_hunk_at_def opt_count_def is_digit_def)
  then have m: "hunk_pattern (?ls ! 0)"
    by (rule hunk_pattern_cases(3))
  have v: "count_value None = 1" "count_value (Some ''4'') = 4"
    by (simp_all add: decimal_def digit_val_def MaxInt_def)
  have a: "NewLines h = Atoi ''4''" if "sint (NewLines h) = 4" for h :: Hunk
  proof -
    have "sint (Atoi ''4'') = 4"
      by (simp add: sint_Atoi decimal_def digit_val_def MaxInt_def)
    with that have "sint (NewLines h) = sint (Atoi ''4'')"
      by simp
    then show ?thesis
      by (simp only: word_eq_iff_signed [where ?'a = int])
  qed
  from header_counts [OF l, of "''7''" None "''9''" "Some ''4''" "'' func main()''"] l s d m v a
  show ?thesis
    by auto
qed

theorem header_counts_counterexample:
  "match_hunk ''@@ -1,9223372036854775808 +1 @@'' =
     Some (''1'', ''9223372036854775808'', ''1'', [], []) \<and>
   decimal ''9223372036854775808'' = 9223372036854775808 \<and>
   fst (parseHunk [''@@ -1,9223372036854775808 +1 @@''] 0) =
     Some \<lparr>OldStart = 1, OldLines = 9223372036854775807, NewStart = 1, NewLines = 1,
           Header = ''@@ -1,9223372036854775808 +1 @@'', Lines = []\<rparr> \<and>
   sint (9223372036854775807 :: go_int) = 9223372036854775807"
  by (simp add: parseHunk_Some parser_eval)

subsection \<open>Untracked files\<close>

definition added_line :: "string list \<Rightarrow> nat \<Rightarrow> Line" where
  \<comment> \<open>the record \<^verbatim>\<open>getUntrackedFileDiff\<close> builds for the segment of index \<open>k\<close>\<close>
  "added_line ls k =
     \<lparr>Type = LineTypeAdded, OldNumber = None, NewNumber = Some (word_of_nat k + 1),
      Content = ls ! k\<rparr>"

definition text_lines :: "string \<Rightarrow> nat" where
  \<comment> \<open>the number of lines of a text: one per newline byte, and one more for a last
      line that no newline ends\<close>
  "text_lines content =
     count_list content (CHR 0x0A) +
     (if content = [] \<or> last content = CHR 0x0A then 0 else 1)"

definition one_file :: "string \<Rightarrow> string \<Rightarrow> string \<Rightarrow> error + string" where
  \<comment> \<open>\<^verbatim>\<open>os.ReadFile\<close> over a directory that holds a single file\<close>
  "one_file name content path =
     (if path = name then Inr content
      else Inl (''open '' @ path @ '': no such file or directory''))"

lemma untracked_lines_eq:
  "untracked_lines ls i diffLines = diffLines @ map (added_line ls) [i..<length ls]"
proof (induction ls i diffLines rule: untracked_lines.induct)
  case (1 ls i diffLines)
  show ?case
  proof (cases "i < length ls")
    case True
    then have "[i..<length ls] = i # [Suc i..<length ls]"
      by (rule upt_conv_Cons)
    with True "1.IH" show ?thesis
      by (subst untracked_lines.simps) (simp add: added_line_def)
  next
    case False
    then show ?thesis
      by (subst untracked_lines.simps) simp
  qed
qed

lemma length_Split: "length (Split content) = Suc (count_list content (CHR 0x0A))"
  by (induction content) (auto split: list.splits)

lemma Split_not_Nil: "Split content \<noteq> []"
  by (cases content) (auto split: list.splits)

lemma untrackedFileDiff_eq:
  "untrackedFileDiff filepath content =
     \<lparr>Path = filepath, OldPath = [], Status = FileStatusAdded,
      Additions = word_of_nat (length (Split content)), Deletions = 0, IsBinary = False,
      Hunks = [\<lparr>OldStart = 0, OldLines = 0, NewStart = 1,
                NewLines = word_of_nat (length (Split content)),
                Header = ''@@ -0,0 +1,'' @ Itoa (length (Split content)) @ '' @@'',
                Lines = map (added_line (Split content)) [0..<length (Split content)]\<rparr>]\<rparr>"
  by (simp add: untrackedFileDiff_def untracked_lines_eq Let_def)

lemma untracked_segments:
  "length (Split content) =
     text_lines content + (if content = [] \<or> last content = CHR 0x0A then 1 else 0)"
  by (simp add: length_Split text_lines_def)

text \<open>
  C9. What \<^verbatim>\<open>getUntrackedFileDiff\<close> builds for a file of one line, \<^verbatim>\<open>a\<close> followed by a
  newline: \<^verbatim>\<open>strings.Split\<close> gives two segments, so the file is reported with two
  additions, \<^verbatim>\<open>NewLines = 2\<close>, the header \<^verbatim>\<open>@@ -0,0 +1,2 @@\<close> and two Added lines, the
  second with empty content. In general the number of Added lines is the number of
  segments, which is one more than the number of lines whenever the content is empty
  or ends with a newline.
\<close>

theorem untracked_trailing_newline:
  "text_lines (''a'' @ LF) = 1 \<and>
   getUntrackedFileDiff (one_file ''f.txt'' (''a'' @ LF)) ''f.txt'' 3 =
     Inr \<lparr>Path = ''f.txt'', OldPath = [], Status = FileStatusAdded, Additions = 2,
          Deletions = 0, IsBinary = False,
          Hunks =
            [\<lparr>OldStart = 0, OldLines = 0, NewStart = 1, NewLines = 2,
              Header = ''@@ -0,0 +1,2 @@'',
              Lines =
                [\<lparr>Type = LineTypeAdded, OldNumber = None, NewNumber = Some 1, Content = ''a''\<rparr>,
                 \<lparr>Type = LineTypeAdded, OldNumber = None, NewNumber = Some 2, Content = []\<rparr>]\<rparr>]\<rparr>"
proof -
  have s: "Split (''a'' @ LF) = [''a'', []]"
    by (simp add: LF_def)
  have i: "Itoa (Suc (Suc 0)) = ''2''"
    by (subst Itoa.simps) simp
  have u: "[0..<2] = [0, Suc 0]"
    by (simp add: upt_rec)
  have t: "text_lines (''a'' @ LF) = 1"
    by (simp add: text_lines_def LF_def)
  have g: "getUntrackedFileDiff (one_file ''f.txt'' (''a'' @ LF)) ''f.txt'' 3 =
      Inr (untrackedFileDiff ''f.txt'' (''a'' @ LF))"
    by (simp add: getUntrackedFileDiff_def one_file_def)
  show ?thesis
    by (simp only: t g untrackedFileDiff_eq s) (simp add: i u added_line_def)
qed

end
